theory Spec2Isabelle
  imports Main "HOL-Library.Word" "HOL-Library.Sublist"
begin

section \<open>The EVM world-state backend (contract/src/state.cpp)\<close>

text \<open>
  A shallow embedding of \<^verbatim>\<open>evm_runtime::state\<close>: the account directory, the per-account
  storage tables, the content-addressed code table with its reference counts, the two
  garbage-collection queues, and the per-transition caches and read/write counters that
  the member functions mutate. Every member function becomes a function that takes the
  state and returns the new one (the \<^verbatim>\<open>const\<close> readers mutate \<^verbatim>\<open>mutable\<close> members, so they
  return the state as well).
\<close>

subsection \<open>Scalar types\<close>

type_synonym u32 = "32 word"
type_synonym u64 = "64 word"
type_synonym address = "160 word"   \<comment> \<open>\<^verbatim>\<open>evmc::address\<close>, 20 bytes\<close>
type_synonym bytes32 = "256 word"   \<comment> \<open>\<^verbatim>\<open>evmc::bytes32\<close>\<close>
type_synonym uint256 = "256 word"   \<comment> \<open>\<^verbatim>\<open>intx::uint256\<close>\<close>
type_synonym bytes = "8 word list"

text \<open>
  \<^verbatim>\<open>silkworm::kEmptyHash\<close>: the Keccak-256 hash of the empty byte string
  (c5d2460186f7233c927e7db2dcc703c0e500b653ca82273b7bfad8045d85a470).
\<close>

definition kEmptyHash :: bytes32 where
  "kEmptyHash = 0xC5D2460186F7233C927E7DB2DCC703C0E500B653CA82273B7BFAD8045D85A470"

text \<open>\<^verbatim>\<open>is_zero\<close> on a 32-byte value: every byte is zero.\<close>

definition is_zero :: "bytes32 \<Rightarrow> bool" where
  "is_zero v = (v = 0)"

subsection \<open>The interpreter's account snapshot (\<^verbatim>\<open>silkworm::Account\<close>)\<close>

record Account =
  acc_nonce :: u64
  acc_balance :: uint256
  acc_code_hash :: bytes32
  acc_incarnation :: u64

subsection \<open>Table rows\<close>

text \<open>
  The rows of the five tables, with the fields that state.cpp reads and writes.
  The fixed-width big-endian byte strings that \<^verbatim>\<open>to_bytes\<close> produces for addresses,
  hashes, balances, slot keys and slot values are kept as the words they encode
  (\<^verbatim>\<open>to_bytes\<close> and the index keys of \<^verbatim>\<open>make_key\<close> are injective on them).
\<close>

record account_row =
  a_id :: u64
  a_eth_address :: address
  a_nonce :: u64
  a_balance :: uint256
  a_code_hash :: "bytes32 option"

record storage_row =
  s_id :: u64
  s_key :: bytes32
  s_value :: bytes32

record code_row =
  c_id :: u64
  c_ref_count :: u32
  c_code :: bytes
  c_code_hash :: bytes32

record gcstore_row =
  g_id :: u64
  g_storage_id :: u64

record gccode_row =
  gc_id :: u64
  gc_code_id :: u64

text \<open>
  Modelled from the spec: the declaration of \<^verbatim>\<open>get_code_hash\<close> (evm_runtime/tables.hpp) is
  missing. The spec's data model says an absent \<^verbatim>\<open>code_hash\<close> means "no code", and
  \<^verbatim>\<open>update_account\<close> stores absent for the canonical hash of empty code, so the reader
  gives that hash back for an absent field.
\<close>

definition get_code_hash :: "account_row \<Rightarrow> bytes32" where
  "get_code_hash r = (case a_code_hash r of None \<Rightarrow> kEmptyHash | Some h \<Rightarrow> h)"

subsection \<open>Counters and state\<close>

text \<open>
  The counters \<^verbatim>\<open>stats.account.{read,create,update,remove}\<close> and
  \<^verbatim>\<open>stats.storage.{read,create,update,remove}\<close>, as state.cpp uses them (their declaration,
  in evm_runtime/state.hpp, is missing; no property below depends on their width).
\<close>

record db_stats =
  stat_account_read :: nat
  stat_account_create :: nat
  stat_account_update :: nat
  stat_account_remove :: nat
  stat_storage_read :: nat
  stat_storage_create :: nat
  stat_storage_update :: nat
  stat_storage_remove :: nat

text \<open>
  Modelled from the spec: the table substrate (eosio multi-index tables, declared in the
  missing evm_runtime/tables.hpp) is a primary-key table with create, find, modify and erase,
  secondary indices with exact-key lookup, and per table a "next available primary key"
  allocator that is monotonic and never reuses a key. A table is the list of its rows in
  primary-key order, which with such an allocator is insertion order, and a counter for the
  next key. Storage tables are scoped by account id: the rows of all scopes are kept in one
  list, each row with its scope, and every scope has its own key counter.
  The caches \<^verbatim>\<open>addr2id\<close> and \<^verbatim>\<open>addr2code\<close> are the \<^verbatim>\<open>std::map\<close> members.
\<close>

record state =
  accounts :: "account_row list"
  accounts_next :: u64
  storage :: "(u64 \<times> storage_row) list"
  storage_next :: "u64 \<Rightarrow> u64"
  codes :: "code_row list"
  codes_next :: u64
  gc_store :: "gcstore_row list"
  gc_store_next :: u64
  gc_code :: "gccode_row list"
  gc_code_next :: u64
  addr2id :: "address \<rightharpoonup> u64"
  addr2code :: "bytes32 \<rightharpoonup> bytes"
  stats :: db_stats

subsection \<open>Table primitives\<close>

text \<open>
  Modelled from the spec: the table operations themselves belong to the substrate. An
  iterator returned by an exact-key lookup points at the first row, in primary-key order,
  whose key matches (\<^const>\<open>find\<close>). \<^verbatim>\<open>erase\<close> and \<^verbatim>\<open>modify\<close> act on the row the iterator
  points at, so they act on the first row matching the lookup that produced the iterator.
\<close>

fun tbl_erase :: "('r \<Rightarrow> bool) \<Rightarrow> 'r list \<Rightarrow> 'r list" where
  "tbl_erase P [] = []"
| "tbl_erase P (x # xs) = (if P x then xs else x # tbl_erase P xs)"

fun tbl_modify :: "('r \<Rightarrow> bool) \<Rightarrow> ('r \<Rightarrow> 'r) \<Rightarrow> 'r list \<Rightarrow> 'r list" where
  "tbl_modify P f [] = []"
| "tbl_modify P f (x # xs) = (if P x then f x # xs else x # tbl_modify P f xs)"

text \<open>The lookups of state.cpp: by address, by code hash, by code id, by slot key in a scope.\<close>

definition by_address :: "address \<Rightarrow> account_row \<Rightarrow> bool" where
  "by_address address r = (a_eth_address r = address)"

definition by_codehash :: "bytes32 \<Rightarrow> code_row \<Rightarrow> bool" where
  "by_codehash h c = (c_code_hash c = h)"

definition by_code_id :: "u64 \<Rightarrow> code_row \<Rightarrow> bool" where
  "by_code_id k c = (c_id c = k)"

definition in_scope :: "u64 \<Rightarrow> u64 \<times> storage_row \<Rightarrow> bool" where
  "in_scope scope x = (fst x = scope)"

definition by_key :: "u64 \<Rightarrow> bytes32 \<Rightarrow> u64 \<times> storage_row \<Rightarrow> bool" where
  "by_key scope location x = (fst x = scope \<and> s_key (snd x) = location)"

definition find_account :: "state \<Rightarrow> address \<Rightarrow> account_row option" where
  "find_account s address = find (by_address address) (accounts s)"

definition find_code :: "state \<Rightarrow> bytes32 \<Rightarrow> code_row option" where
  "find_code s h = find (by_codehash h) (codes s)"

definition find_slot :: "state \<Rightarrow> u64 \<Rightarrow> bytes32 \<Rightarrow> (u64 \<times> storage_row) option" where
  "find_slot s scope location = find (by_key scope location) (storage s)"

subsection \<open>Readers\<close>

definition read_account :: "state \<Rightarrow> address \<Rightarrow> Account option \<times> state" where
  "read_account s address =
     (let itr = find_account s address;
          s1 = s\<lparr>stats := (stats s)\<lparr>stat_account_read := stat_account_read (stats s) + 1\<rparr>\<rparr>
      in case itr of
           None \<Rightarrow> (None, s1)
         | Some r \<Rightarrow>
             (Some \<lparr>acc_nonce = a_nonce r, acc_balance = a_balance r,
                    acc_code_hash = get_code_hash r, acc_incarnation = 0\<rparr>,
              s1\<lparr>addr2id := (addr2id s1)(address \<mapsto> a_id r)\<rparr>))"

definition read_code :: "state \<Rightarrow> bytes32 \<Rightarrow> bytes \<times> state" where
  "read_code s code_hash =
     (case addr2code s code_hash of
        Some code \<Rightarrow> (code, s)
      | None \<Rightarrow>
          (case find_code s code_hash of
             None \<Rightarrow> ([], s)
           | Some c \<Rightarrow>
               if length (c_code c) = 0 then ([], s)
               else (c_code c, s\<lparr>addr2code := (addr2code s)(code_hash \<mapsto> c_code c)\<rparr>)))"

text \<open>
  \<^verbatim>\<open>read_storage\<close> resolves the address through the cache first; only on a cache miss does
  it look the account up (and return zero when there is none). \<open>read_slot\<close> is the second
  half of the function, from \<^verbatim>\<open>account_id = addr2id[address]\<close> on.
\<close>

definition read_slot :: "state \<Rightarrow> u64 \<Rightarrow> bytes32 \<Rightarrow> bytes32 \<times> state" where
  "read_slot s account_id location =
     (let itr2 = find_slot s account_id location;
          s1 = s\<lparr>stats := (stats s)\<lparr>stat_storage_read := stat_storage_read (stats s) + 1\<rparr>\<rparr>
      in case itr2 of
           None \<Rightarrow> (0, s1)
         | Some x \<Rightarrow> (s_value (snd x), s1))"

definition read_storage :: "state \<Rightarrow> address \<Rightarrow> u64 \<Rightarrow> bytes32 \<Rightarrow> bytes32 \<times> state" where
  "read_storage s address incarnation location =
     (case addr2id s address of
        Some account_id \<Rightarrow> read_slot s account_id location
      | None \<Rightarrow>
          (let itr = find_account s address;
               s1 = s\<lparr>stats := (stats s)\<lparr>stat_account_read := stat_account_read (stats s) + 1\<rparr>\<rparr>
           in case itr of
                None \<Rightarrow> (0, s1)
              | Some r \<Rightarrow> read_slot (s1\<lparr>addr2id := (addr2id s1)(address \<mapsto> a_id r)\<rparr>) (a_id r) location))"

definition previous_incarnation :: "state \<Rightarrow> address \<Rightarrow> u64" where
  "previous_incarnation s address = 0"

definition begin_block :: "state \<Rightarrow> u64 \<Rightarrow> state" where
  "begin_block s block_number = s"


subsection \<open>Writers\<close>

text \<open>
  \<^verbatim>\<open>update_account\<close>. The code hash stored in a row is absent for the hash of empty code.
  The deletion branch is \<open>delete_account\<close>; the part of it under the comment
  "Decrease ref_count for code" is \<open>release_code\<close>, whose row mutator (decrement only a
  positive count) is \<open>dec_ref_count\<close>.
\<close>

definition stored_code_hash :: "Account \<Rightarrow> bytes32 option" where
  "stored_code_hash current =
     (if acc_code_hash current = kEmptyHash then None else Some (acc_code_hash current))"

definition dec_ref_count :: "code_row \<Rightarrow> code_row" where
  "dec_ref_count row =
     (if c_ref_count row > 0 then row\<lparr>c_ref_count := c_ref_count row - 1\<rparr> else row)"

definition release_code :: "state \<Rightarrow> bytes32 \<Rightarrow> state" where
  "release_code s h =
     (case find_code s h of
        None \<Rightarrow> s   \<comment> \<open>SHOULD NOT REACH HERE, ignored for robustness\<close>
      | Some itrc \<Rightarrow>
          (let s1 = (if c_ref_count itrc \<le> 1
                     then s\<lparr>gc_code := gc_code s @ [\<lparr>gc_id = gc_code_next s, gc_code_id = c_id itrc\<rparr>],
                            gc_code_next := gc_code_next s + 1\<rparr>
                     else s)
           in s1\<lparr>codes := tbl_modify (by_codehash h) dec_ref_count (codes s1)\<rparr>))"

definition delete_account :: "state \<Rightarrow> address \<Rightarrow> account_row \<Rightarrow> state" where
  "delete_account s address itr =
     (let s1 = s\<lparr>gc_store := gc_store s @ [\<lparr>g_id = gc_store_next s, g_storage_id = a_id itr\<rparr>],
                 gc_store_next := gc_store_next s + 1\<rparr>;
          s2 = (case a_code_hash itr of None \<Rightarrow> s1 | Some h \<Rightarrow> release_code s1 h)
      in s2\<lparr>accounts := tbl_erase (by_address address) (accounts s2),
            stats := (stats s2)\<lparr>stat_account_remove := stat_account_remove (stats s2) + 1\<rparr>\<rparr>)"

definition update_account :: "state \<Rightarrow> address \<Rightarrow> Account option \<Rightarrow> Account option \<Rightarrow> state" where
  "update_account s address initial current =
     (if current = initial then s
      else
        (let itr = find_account s address;
             s1 = s\<lparr>stats := (stats s)\<lparr>stat_account_read := stat_account_read (stats s) + 1\<rparr>\<rparr>
         in case current of
              Some cur \<Rightarrow>
                (case itr of
                   None \<Rightarrow>
                     s1\<lparr>accounts := accounts s1 @
                           [\<lparr>a_id = accounts_next s1, a_eth_address = address,
                             a_nonce = acc_nonce cur, a_balance = acc_balance cur,
                             a_code_hash = stored_code_hash cur\<rparr>],
                        accounts_next := accounts_next s1 + 1,
                        stats := (stats s1)\<lparr>stat_account_create := stat_account_create (stats s1) + 1\<rparr>\<rparr>
                 | Some r \<Rightarrow>
                     s1\<lparr>accounts := tbl_modify (by_address address)
                           (\<lambda>row. row\<lparr>a_nonce := acc_nonce cur,
                                       a_code_hash := stored_code_hash cur,
                                       a_balance := acc_balance cur\<rparr>)
                           (accounts s1),
                        stats := (stats s1)\<lparr>stat_account_update := stat_account_update (stats s1) + 1\<rparr>\<rparr>)
            | None \<Rightarrow>
                (case itr of
                   None \<Rightarrow> s1
                 | Some r \<Rightarrow> delete_account s1 address r)))"

text \<open>
  \<^verbatim>\<open>update_account_code\<close>. The mutator of an existing code row (\<^verbatim>\<open>row.ref_count ++\<close>, which
  wraps at 32 bits) is \<open>inc_ref_count\<close>. A new account row leaves \<^verbatim>\<open>balance\<close>
  default-constructed (the empty byte string, which decodes to zero).
\<close>

definition inc_ref_count :: "code_row \<Rightarrow> code_row" where
  "inc_ref_count row = row\<lparr>c_ref_count := c_ref_count row + 1\<rparr>"

definition update_account_code :: "state \<Rightarrow> address \<Rightarrow> u64 \<Rightarrow> bytes32 \<Rightarrow> bytes \<Rightarrow> state" where
  "update_account_code s address incarnation code_hash code =
     (let s1 = (case find_code s code_hash of
                  None \<Rightarrow>
                    s\<lparr>codes := codes s @
                          [\<lparr>c_id = codes_next s, c_ref_count = 1, c_code = code,
                            c_code_hash = code_hash\<rparr>],
                      codes_next := codes_next s + 1\<rparr>
                | Some itrc \<Rightarrow>
                    s\<lparr>codes := tbl_modify (by_codehash code_hash) inc_ref_count (codes s)\<rparr>);
          itr = find_account s1 address;
          s2 = s1\<lparr>stats := (stats s1)\<lparr>stat_account_read := stat_account_read (stats s1) + 1\<rparr>\<rparr>
      in case itr of
           Some r \<Rightarrow>
             s2\<lparr>accounts := tbl_modify (by_address address)
                   (\<lambda>row. row\<lparr>a_code_hash := Some code_hash\<rparr>) (accounts s2),
                stats := (stats s2)\<lparr>stat_account_update := stat_account_update (stats s2) + 1\<rparr>\<rparr>
         | None \<Rightarrow>
             s2\<lparr>accounts := accounts s2 @
                   [\<lparr>a_id = accounts_next s2, a_eth_address = address, a_nonce = 0,
                     a_balance = 0, a_code_hash = Some code_hash\<rparr>],
                accounts_next := accounts_next s2 + 1,
                stats := (stats s2)\<lparr>stat_account_create := stat_account_create (stats s2) + 1\<rparr>\<rparr>)"

text \<open>
  \<^verbatim>\<open>update_storage\<close>. The lazily created account row stores the empty-code hash as a
  present value, and the counter bumped after creating it is \<^verbatim>\<open>stats.account.read\<close>.
\<close>

definition update_storage ::
  "state \<Rightarrow> address \<Rightarrow> u64 \<Rightarrow> bytes32 \<Rightarrow> bytes32 \<Rightarrow> bytes32 \<Rightarrow> state" where
  "update_storage s address incarnation location initial current =
     (let itr = find_account s address;
          s1 = s\<lparr>stats := (stats s)\<lparr>stat_account_read := stat_account_read (stats s) + 1\<rparr>\<rparr>
      in if is_zero current then
           (case itr of
              None \<Rightarrow> s1
            | Some r \<Rightarrow>
                (let itr2 = find_slot s1 (a_id r) location;
                     s2 = s1\<lparr>stats := (stats s1)\<lparr>stat_storage_read := stat_storage_read (stats s1) + 1\<rparr>\<rparr>
                 in case itr2 of
                      None \<Rightarrow> s2
                    | Some x \<Rightarrow>
                        s2\<lparr>storage := tbl_erase (by_key (a_id r) location) (storage s2),
                           stats := (stats s2)\<lparr>stat_storage_remove := stat_storage_remove (stats s2) + 1\<rparr>\<rparr>))
         else
           (let (table_id, s2) =
                  (case itr of
                     None \<Rightarrow>
                       (accounts_next s1,
                        s1\<lparr>accounts := accounts s1 @
                              [\<lparr>a_id = accounts_next s1, a_eth_address = address, a_nonce = 0,
                                a_balance = 0, a_code_hash = Some kEmptyHash\<rparr>],
                           accounts_next := accounts_next s1 + 1,
                           stats := (stats s1)\<lparr>stat_account_read := stat_account_read (stats s1) + 1\<rparr>\<rparr>)
                   | Some r \<Rightarrow> (a_id r, s1));
                itr2 = find_slot s2 table_id location;
                s3 = s2\<lparr>stats := (stats s2)\<lparr>stat_storage_read := stat_storage_read (stats s2) + 1\<rparr>\<rparr>
            in case itr2 of
                 None \<Rightarrow>
                   s3\<lparr>storage := storage s3 @
                         [(table_id, \<lparr>s_id = storage_next s3 table_id, s_key = location,
                                      s_value = current\<rparr>)],
                      storage_next := (storage_next s3)(table_id := storage_next s3 table_id + 1),
                      stats := (stats s3)\<lparr>stat_storage_create := stat_storage_create (stats s3) + 1\<rparr>\<rparr>
               | Some x \<Rightarrow>
                   s3\<lparr>storage := tbl_modify (by_key table_id location)
                         (\<lambda>x. (fst x, (snd x)\<lparr>s_value := current\<rparr>)) (storage s3),
                      stats := (stats s3)\<lparr>stat_storage_update := stat_storage_update (stats s3) + 1\<rparr>\<rparr>))"

subsection \<open>Garbage collection\<close>

text \<open>
  The inner loop of \<^verbatim>\<open>gc\<close>: while budget remains and the scope has a row, erase the
  scope's first row and take one from the budget.
\<close>

function drain_scope :: "u32 \<Rightarrow> u64 \<Rightarrow> (u64 \<times> storage_row) list \<Rightarrow> u32 \<times> (u64 \<times> storage_row) list" where
  "drain_scope max_steps scope db =
     (if max_steps \<noteq> 0 \<and> find (in_scope scope) db \<noteq> None
      then drain_scope (max_steps - 1) scope (tbl_erase (in_scope scope) db)
      else (max_steps, db))"
  by pat_completeness auto
termination
  by (relation "measure (\<lambda>(max_steps, scope, db). unat max_steps)") (auto simp: unat_minus_one unat_gt_0)

declare drain_scope.simps [simp del]

text \<open>
  The first loop: for the entry at the head of the storage queue, drain its scope; stop if
  the budget is gone, else erase the entry (one more unit) and go on.
\<close>

function gc_store_loop :: "u32 \<Rightarrow> state \<Rightarrow> u32 \<times> state" where
  "gc_store_loop max_steps s =
     (if max_steps = 0 then (max_steps, s)
      else case gc_store s of
             [] \<Rightarrow> (max_steps, s)
           | i # rest \<Rightarrow>
               (let r = drain_scope max_steps (g_storage_id i) (storage s);
                    left1 = fst r;
                    s1 = s\<lparr>storage := snd r\<rparr>
                in if left1 = 0 then (left1, s1)
                   else gc_store_loop (left1 - 1) (s1\<lparr>gc_store := rest\<rparr>)))"
  by pat_completeness auto
termination
  by (relation "measure (\<lambda>(max_steps, s). length (gc_store s))") auto

declare gc_store_loop.simps [simp del]

text \<open>
  The second loop: for the entry at the head of the code queue, erase the code object it
  names if that object exists with reference count zero (one unit); stop if the budget is
  gone, else erase the entry (one more unit) and go on. \<open>collectable\<close> is the test
  \<^verbatim>\<open>citr != codes.end() && citr->ref_count == 0\<close> on the row found by primary key.
\<close>

definition collectable :: "state \<Rightarrow> gccode_row \<Rightarrow> bool" where
  "collectable s j =
     (case find (by_code_id (gc_code_id j)) (codes s) of
        None \<Rightarrow> False
      | Some citr \<Rightarrow> c_ref_count citr = 0)"

function gc_code_loop :: "u32 \<Rightarrow> state \<Rightarrow> u32 \<times> state" where
  "gc_code_loop max_steps s =
     (if max_steps = 0 then (max_steps, s)
      else case gc_code s of
             [] \<Rightarrow> (max_steps, s)
           | j # rest \<Rightarrow>
               (let erases = (max_steps \<noteq> 0 \<and> collectable s j);
                    s1 = (if erases
                          then s\<lparr>codes := tbl_erase (by_code_id (gc_code_id j)) (codes s)\<rparr>
                          else s);
                    left1 = (if erases then max_steps - 1 else max_steps)
                in if left1 = 0 then (left1, s1)
                   else gc_code_loop (left1 - 1) (s1\<lparr>gc_code := rest\<rparr>)))"
  by pat_completeness auto
termination
  by (relation "measure (\<lambda>(max_steps, s). length (gc_code s))") auto

declare gc_code_loop.simps [simp del]

text \<open>\<open>gc_run\<close> is the body of \<^verbatim>\<open>gc\<close> up to its return, with the budget left over.\<close>

definition gc_run :: "state \<Rightarrow> u32 \<Rightarrow> u32 \<times> state" where
  "gc_run s max_steps =
     (let r1 = gc_store_loop max_steps s;
          r2 = gc_code_loop (fst r1) (snd r1)
      in r2)"

definition gc :: "state \<Rightarrow> u32 \<Rightarrow> state \<times> bool" where
  "gc s max_steps =
     (let s' = snd (gc_run s max_steps)
      in (s', gc_store s' = [] \<and> gc_code s' = []))"

subsection \<open>The chain boundary\<close>

text \<open>
  \<^verbatim>\<open>eosio::check(pred, msg)\<close> aborts the transaction with \<^verbatim>\<open>msg\<close> when \<^verbatim>\<open>pred\<close> is false.
  An abort is the left summand; the statement after a check runs only when it passed.
\<close>

datatype error = check_failure string

definition check :: "bool \<Rightarrow> string \<Rightarrow> error + unit" where
  "check pred msg = (if pred then Inr () else Inl (check_failure msg))"

definition after_check :: "error + unit \<Rightarrow> 'a \<Rightarrow> error + 'a" where
  "after_check c v = (case c of Inl e \<Rightarrow> Inl e | Inr u \<Rightarrow> Inr v)"

typedecl BlockHeader
typedecl BlockBody
typedecl Block
typedecl Receipt

definition read_header :: "state \<Rightarrow> u64 \<Rightarrow> bytes32 \<Rightarrow> error + BlockHeader option" where
  "read_header s block_number block_hash =
     after_check (check False ''read_header not implemented'') None"

definition read_body :: "state \<Rightarrow> u64 \<Rightarrow> bytes32 \<Rightarrow> BlockBody \<Rightarrow> error + bool" where
  "read_body s block_number block_hash out =
     after_check (check False ''read_body not implemented'') False"

definition total_difficulty :: "state \<Rightarrow> u64 \<Rightarrow> bytes32 \<Rightarrow> error + uint256 option" where
  "total_difficulty s block_number block_hash =
     after_check (check False ''total_difficulty not implemented'') None"

definition current_canonical_block :: "state \<Rightarrow> error + u64" where
  "current_canonical_block s =
     after_check (check False ''current_canonical_block not implemented'') 0"

definition canonical_hash :: "state \<Rightarrow> u64 \<Rightarrow> error + bytes32 option" where
  "canonical_hash s block_number =
     after_check (check False ''canonical_hash not implemented'') None"

definition insert_block :: "state \<Rightarrow> Block \<Rightarrow> bytes32 \<Rightarrow> error + state" where
  "insert_block s block hash =
     after_check (check False ''insert_block not implemented'') s"

definition canonize_block :: "state \<Rightarrow> u64 \<Rightarrow> bytes32 \<Rightarrow> error + state" where
  "canonize_block s block_number block_hash =
     after_check (check False ''canonize_block not implemented'') s"

definition decanonize_block :: "state \<Rightarrow> u64 \<Rightarrow> error + state" where
  "decanonize_block s block_number =
     after_check (check False ''decanonize_block not implemented'') s"

definition insert_receipts :: "state \<Rightarrow> u64 \<Rightarrow> Receipt list \<Rightarrow> error + state" where
  "insert_receipts s block_number receipts =
     after_check (check False ''insert_receipts not implemented'') s"

definition unwind_state_changes :: "state \<Rightarrow> u64 \<Rightarrow> error + state" where
  "unwind_state_changes s block_number =
     after_check (check False ''unwind_state_changes not implemented'') s"

definition state_root_hash :: "state \<Rightarrow> error + bytes32" where
  "state_root_hash s =
     after_check (check False ''state_root_hash not implemented'') 0"


subsection \<open>Measuring garbage-collection work\<close>

text \<open>
  The rows held by the four tables that \<^verbatim>\<open>gc\<close> deletes from: every unit of work of \<^verbatim>\<open>gc\<close>
  (a slot deletion, a queue-entry removal, a code-object deletion) removes one of them.
\<close>

definition table_rows :: "state \<Rightarrow> nat" where
  "table_rows s = length (storage s) + length (gc_store s) + length (codes s) + length (gc_code s)"

text \<open>
  The pending work: one unit per queue entry, one per slot in a queued scope, and one per
  code object with reference count zero that a queued entry names.
\<close>

definition scope_rows :: "u64 \<Rightarrow> (u64 \<times> storage_row) list \<Rightarrow> nat" where
  "scope_rows scope db = length (filter (in_scope scope) db)"

definition queued_scope :: "gcstore_row list \<Rightarrow> u64 \<times> storage_row \<Rightarrow> bool" where
  "queued_scope q x = (fst x \<in> g_storage_id ` set q)"

definition queued_code :: "gccode_row list \<Rightarrow> code_row \<Rightarrow> bool" where
  "queued_code q c = (c_ref_count c = 0 \<and> c_id c \<in> gc_code_id ` set q)"

definition pending_storage_work :: "state \<Rightarrow> nat" where
  "pending_storage_work s =
     length (gc_store s) + length (filter (queued_scope (gc_store s)) (storage s))"

definition pending_code_work :: "state \<Rightarrow> nat" where
  "pending_code_work s =
     length (gc_code s) + length (filter (queued_code (gc_code s)) (codes s))"

definition pending_work :: "state \<Rightarrow> nat" where
  "pending_work s = pending_storage_work s + pending_code_work s"

subsection \<open>Storage slots\<close>

text \<open>
  The value a scope holds for a key (zero when there is no record), the property that no
  stored slot holds zero, and the property that a scope has at most one record per key.
\<close>

definition slot_value :: "state \<Rightarrow> u64 \<Rightarrow> bytes32 \<Rightarrow> bytes32" where
  "slot_value s scope location =
     (case find_slot s scope location of None \<Rightarrow> 0 | Some x \<Rightarrow> s_value (snd x))"

definition slot_key :: "u64 \<times> storage_row \<Rightarrow> u64 \<times> bytes32" where
  "slot_key x = (fst x, s_key (snd x))"

text \<open>
  The scope \<^verbatim>\<open>update_storage\<close> writes to: the id of the address's record, or the id a lazily
  created record will get.
\<close>

definition slot_scope :: "state \<Rightarrow> address \<Rightarrow> u64" where
  "slot_scope s address =
     (case find_account s address of None \<Rightarrow> accounts_next s | Some r \<Rightarrow> a_id r)"

definition sparse :: "state \<Rightarrow> bool" where
  "sparse s = (list_all (\<lambda>x. s_value (snd x) \<noteq> 0) (storage s) \<and> distinct (map slot_key (storage s)))"

subsection \<open>Reference counts and the accounts that hold a code hash\<close>

text \<open>
  The number of account records whose code hash is \<open>h\<close>; a code object with count zero that
  a code-queue entry names; the relation between the two that the specification asks for
  (count equals holders, except for an object waiting for collection); and the same relation
  without the exception, together with one code object per hash.
\<close>

definition holds :: "bytes32 \<Rightarrow> account_row \<Rightarrow> bool" where
  "holds h r = (a_code_hash r = Some h)"

definition holders :: "state \<Rightarrow> bytes32 \<Rightarrow> nat" where
  "holders s h = length (filter (holds h) (accounts s))"

definition pending_collection :: "state \<Rightarrow> code_row \<Rightarrow> bool" where
  "pending_collection s c = (c_ref_count c = 0 \<and> c_id c \<in> gc_code_id ` set (gc_code s))"

definition ref_counts_match :: "state \<Rightarrow> bool" where
  "ref_counts_match s =
     list_all (\<lambda>c. unat (c_ref_count c) = holders s (c_code_hash c) \<or> pending_collection s c)
       (codes s)"

definition ref_counts_exact :: "state \<Rightarrow> bool" where
  "ref_counts_exact s =
     (distinct (map c_code_hash (codes s))
      \<and> list_all (\<lambda>c. unat (c_ref_count c) = holders s (c_code_hash c)) (codes s))"

text \<open>
  The conditions under which a call keeps the counts exact. \<open>keeps_code_hash\<close>: the snapshot
  written by \<^verbatim>\<open>update_account\<close> stores the code hash the record already has (absent, for a new
  record). \<open>fresh_holder\<close>: before \<^verbatim>\<open>update_account_code\<close> gives \<open>h\<close> to the address, the
  address's record (if any) names no code object and not \<open>h\<close>, no record names \<open>h\<close> while \<open>h\<close>
  has no code object, and the count of \<open>h\<close> is not at its maximum.
\<close>

definition keeps_code_hash :: "state \<Rightarrow> address \<Rightarrow> Account \<Rightarrow> bool" where
  "keeps_code_hash s address cur =
     (case find_account s address of
        None \<Rightarrow> stored_code_hash cur = None
      | Some r \<Rightarrow> a_code_hash r = stored_code_hash cur)"

definition fresh_holder :: "state \<Rightarrow> address \<Rightarrow> bytes32 \<Rightarrow> bool" where
  "fresh_holder s address h =
     ((case find_account s address of
         None \<Rightarrow> True
       | Some r \<Rightarrow> (case a_code_hash r of
                      None \<Rightarrow> True
                    | Some h' \<Rightarrow> h' \<noteq> h \<and> find_code s h' = None))
      \<and> (case find_code s h of
            None \<Rightarrow> holders s h = 0
          | Some c \<Rightarrow> c_ref_count c \<noteq> - 1))"

subsection \<open>A concrete state\<close>

text \<open>
  Two accounts: \<open>0xA\<close> (id 0) holds the code with hash \<open>0x11\<close>, whose reference count is 1,
  and owns two storage slots; \<open>0xB\<close> (id 1) has no code and one slot. Queues and caches are
  empty.
\<close>

definition demo_code :: bytes where
  "demo_code = [0x60, 0x01, 0x60, 0x00]"

definition demo_row_A :: account_row where
  "demo_row_A = \<lparr>a_id = 0, a_eth_address = 0xA, a_nonce = 1, a_balance = 0, a_code_hash = Some 0x11\<rparr>"

definition demo_row_B :: account_row where
  "demo_row_B = \<lparr>a_id = 1, a_eth_address = 0xB, a_nonce = 0, a_balance = 5, a_code_hash = None\<rparr>"

definition demo_account_A :: Account where
  "demo_account_A = \<lparr>acc_nonce = 1, acc_balance = 0, acc_code_hash = 0x11, acc_incarnation = 0\<rparr>"

definition demo_state :: state where
  "demo_state =
     \<lparr>accounts = [demo_row_A, demo_row_B],
      accounts_next = 2,
      storage = [(0, \<lparr>s_id = 0, s_key = 1, s_value = 5\<rparr>),
                 (1, \<lparr>s_id = 0, s_key = 1, s_value = 9\<rparr>),
                 (0, \<lparr>s_id = 1, s_key = 2, s_value = 7\<rparr>)],
      storage_next = (\<lambda>scope. if scope = 0 then 2 else if scope = 1 then 1 else 0),
      codes = [\<lparr>c_id = 0, c_ref_count = 1, c_code = demo_code, c_code_hash = 0x11\<rparr>],
      codes_next = 1,
      gc_store = [],
      gc_store_next = 0,
      gc_code = [],
      gc_code_next = 0,
      addr2id = Map.empty,
      addr2code = Map.empty,
      stats = \<lparr>stat_account_read = 0, stat_account_create = 0, stat_account_update = 0,
               stat_account_remove = 0, stat_storage_read = 0, stat_storage_create = 0,
               stat_storage_update = 0, stat_storage_remove = 0\<rparr>\<rparr>"

text \<open>
  The state \<open>0xA\<close>'s deletion leaves behind: its record is gone, its two slots and the code
  object (now with reference count 0) are still stored, and each queue holds one entry.
\<close>

definition demo_gc_state :: state where
  "demo_gc_state =
     demo_state
       \<lparr>accounts := [demo_row_B],
        codes := [\<lparr>c_id = 0, c_ref_count = 0, c_code = demo_code, c_code_hash = 0x11\<rparr>],
        gc_store := [\<lparr>g_id = 0, g_storage_id = 0\<rparr>],
        gc_store_next := 1,
        gc_code := [\<lparr>gc_id = 0, gc_code_id = 0\<rparr>],
        gc_code_next := 1\<rparr>"

text \<open>
  \<open>demo_state\<close> with the reference count of the code object at zero although \<open>0xA\<close> still
  names it, as after deleting another account that had been given the same code hash by
  \<^verbatim>\<open>update_account\<close> alone.
\<close>

definition demo_zero_code :: code_row where
  "demo_zero_code = \<lparr>c_id = 0, c_ref_count = 0, c_code = demo_code, c_code_hash = 0x11\<rparr>"

definition demo_zero_state :: state where
  "demo_zero_state = demo_state\<lparr>codes := [demo_zero_code]\<rparr>"

text \<open>A snapshot of an account without code.\<close>

definition demo_plain_account :: Account where
  "demo_plain_account =
     \<lparr>acc_nonce = 1, acc_balance = 1, acc_code_hash = kEmptyHash, acc_incarnation = 0\<rparr>"

text \<open>
  Two states reached from \<open>demo_state\<close> by calls of the interface alone, with caches that
  have outlived the rows they were filled from. In the first, \<open>0xA\<close> is read (which caches
  its id) and then deleted. In the second, the code \<open>0x11\<close> is read (which caches its
  bytes), \<open>0xA\<close> is deleted and the collector is run to the end.
\<close>

definition demo_stale_id_state :: state where
  "demo_stale_id_state =
     update_account (snd (read_account demo_state 0xA)) 0xA (Some demo_account_A) None"

definition demo_stale_code_state :: state where
  "demo_stale_code_state =
     fst (gc (update_account (snd (read_code demo_state 0x11)) 0xA (Some demo_account_A) None) 5)"

text \<open>\<open>demo_state\<close> after \<open>0xC\<close> is given the code hash \<open>0x33\<close> with no code bytes.\<close>

definition demo_empty_code_state :: state where
  "demo_empty_code_state = update_account_code demo_state 0xC 0 0x33 []"

text \<open>\<open>0xA\<close> with its nonce advanced and its code unchanged, and a new contract with code \<open>0x22\<close>.\<close>

definition demo_account_A2 :: Account where
  "demo_account_A2 = \<lparr>acc_nonce = 2, acc_balance = 0, acc_code_hash = 0x11, acc_incarnation = 0\<rparr>"

definition demo_account_C :: Account where
  "demo_account_C = \<lparr>acc_nonce = 1, acc_balance = 0, acc_code_hash = 0x22, acc_incarnation = 0\<rparr>"

text \<open>The state before anything is written: every table and cache empty.\<close>

definition empty_state :: state where
  "empty_state =
     \<lparr>accounts = [], accounts_next = 0, storage = [], storage_next = (\<lambda>scope. 0),
      codes = [], codes_next = 0, gc_store = [], gc_store_next = 0,
      gc_code = [], gc_code_next = 0, addr2id = Map.empty, addr2code = Map.empty,
      stats = \<lparr>stat_account_read = 0, stat_account_create = 0, stat_account_update = 0,
               stat_account_remove = 0, stat_storage_read = 0, stat_storage_create = 0,
               stat_storage_update = 0, stat_storage_remove = 0\<rparr>\<rparr>"

text \<open>
  \<open>demo_state\<close> after \<open>0xD\<close> is given the empty-code hash by \<^verbatim>\<open>update_account_code\<close> (which
  makes a code object for it), and that state after a first nonzero storage write to \<open>0xC\<close>.
\<close>

definition demo_empty_hash_state :: state where
  "demo_empty_hash_state = update_account_code demo_state 0xD 0 kEmptyHash []"

definition demo_lazy_state :: state where
  "demo_lazy_state = update_storage demo_empty_hash_state 0xC 0 1 0 5"

section \<open>Table primitives\<close>

lemma find_None_tbl_erase: "find P xs = None \<Longrightarrow> tbl_erase P xs = xs"
  by (induction xs) (auto split: if_splits)

lemma find_None_tbl_modify: "find P xs = None \<Longrightarrow> tbl_modify P f xs = xs"
  by (induction xs) (auto split: if_splits)

lemma length_tbl_modify: "length (tbl_modify P f xs) = length xs"
  by (induction xs) auto

lemma length_tbl_erase: "find P xs = Some x \<Longrightarrow> Suc (length (tbl_erase P xs)) = length xs"
  by (induction xs) (auto split: if_splits)

lemma find_Some_P: "find P xs = Some x \<Longrightarrow> P x \<and> x \<in> set xs"
  by (induction xs) (auto split: if_splits)

lemma find_tbl_modify_same:
  "find P xs = Some x \<Longrightarrow> P (f x) \<Longrightarrow> find P (tbl_modify P f xs) = Some (f x)"
  by (induction xs) (auto split: if_splits)

lemma find_tbl_erase_distinct:
  assumes "distinct (map k xs)" and "\<And>x. P x = (k x = v)"
  shows "find P (tbl_erase P xs) = None"
  using assms(1)
proof (induction xs)
  case Nil
  then show ?case by simp
next
  case (Cons x xs)
  show ?case
  proof (cases "P x")
    case True
    then have "k x = v" using assms(2) by simp
    with Cons.prems have "\<forall>y \<in> set xs. \<not> P y" using assms(2) by (auto simp: image_iff)
    with True show ?thesis by (simp add: find_None_iff)
  next
    case False
    with Cons show ?thesis by simp
  qed
qed

section \<open>Deleting an account\<close>

lemma dec_ref_count_simps [simp]:
  "c_code_hash (dec_ref_count c) = c_code_hash c"
  "c_code (dec_ref_count c) = c_code c"
  "c_id (dec_ref_count c) = c_id c"
  "unat (c_ref_count (dec_ref_count c)) = unat (c_ref_count c) - 1"
  by (auto simp: dec_ref_count_def unat_minus_one word_greater_zero_iff unat_eq_zero)

lemma delete_account_fields:
  "accounts (delete_account s address r) = tbl_erase (by_address address) (accounts s)"
  "storage (delete_account s address r) = storage s"
  "gc_store (delete_account s address r) =
     gc_store s @ [\<lparr>g_id = gc_store_next s, g_storage_id = a_id r\<rparr>]"
  by (simp_all add: delete_account_def release_code_def Let_def split: option.splits)

lemma delete_account_codes:
  "codes (delete_account s address r) =
     (case a_code_hash r of None \<Rightarrow> codes s
      | Some h \<Rightarrow> (case find_code s h of None \<Rightarrow> codes s
                    | Some c \<Rightarrow> tbl_modify (by_codehash h) dec_ref_count (codes s)))"
  "gc_code (delete_account s address r) =
     (case a_code_hash r of None \<Rightarrow> gc_code s
      | Some h \<Rightarrow> (case find_code s h of None \<Rightarrow> gc_code s
                    | Some c \<Rightarrow> if c_ref_count c \<le> 1
                        then gc_code s @ [\<lparr>gc_id = gc_code_next s, gc_code_id = c_id c\<rparr>]
                        else gc_code s))"
  by (simp_all add: delete_account_def Let_def release_code_def find_code_def split: option.splits)

lemma update_account_delete:
  "find_account s address = Some r \<Longrightarrow> initial \<noteq> None \<Longrightarrow>
   update_account s address initial None =
     delete_account (s\<lparr>stats := (stats s)\<lparr>stat_account_read := stat_account_read (stats s) + 1\<rparr>\<rparr>)
       address r"
  by (auto simp: update_account_def Let_def find_account_def)

text \<open>
  C3. For an existing account, \<^verbatim>\<open>update_account(address, initial, absent)\<close> with a present
  \<open>initial\<close> erases the account record at once (with unique addresses no record for the
  address is left), appends exactly one entry carrying the account's id to the
  storage-deletion queue, and leaves every storage-slot record as it was. If the account had
  a code hash whose code object exists, that object's reference count is decremented (the
  decrement stops at zero), and a code-deletion entry is appended exactly when the count was
  at most one, that is when it reaches zero; otherwise the code table and the code queue are
  untouched.
\<close>

theorem update_account_deletion:
  "find_account s address = Some r \<Longrightarrow> initial \<noteq> None \<Longrightarrow>
   (let s' = update_account s address initial None in
      accounts s' = tbl_erase (by_address address) (accounts s)
    \<and> Suc (length (accounts s')) = length (accounts s)
    \<and> (distinct (map a_eth_address (accounts s)) \<longrightarrow> find_account s' address = None)
    \<and> gc_store s' = gc_store s @ [\<lparr>g_id = gc_store_next s, g_storage_id = a_id r\<rparr>]
    \<and> storage s' = storage s
    \<and> (case a_code_hash r of
          None \<Rightarrow> codes s' = codes s \<and> gc_code s' = gc_code s
        | Some h \<Rightarrow>
            (case find_code s h of
               None \<Rightarrow> codes s' = codes s \<and> gc_code s' = gc_code s
             | Some c \<Rightarrow>
                 codes s' = tbl_modify (by_codehash h) dec_ref_count (codes s)
               \<and> (\<exists>c'. find_code s' h = Some c'
                        \<and> unat (c_ref_count c') = unat (c_ref_count c) - 1
                        \<and> c_code c' = c_code c \<and> c_id c' = c_id c)
               \<and> gc_code s' =
                   (if c_ref_count c \<le> 1
                    then gc_code s @ [\<lparr>gc_id = gc_code_next s, gc_code_id = c_id c\<rparr>]
                    else gc_code s))))"
proof -
  assume f: "find_account s address = Some r" and i: "initial \<noteq> None"
  let ?s1 = "s\<lparr>stats := (stats s)\<lparr>stat_account_read := stat_account_read (stats s) + 1\<rparr>\<rparr>"
  let ?s' = "update_account s address initial None"
  have eq: "?s' = delete_account ?s1 address r"
    using f i by (rule update_account_delete)
  have a: "accounts ?s' = tbl_erase (by_address address) (accounts s)"
    by (simp add: eq delete_account_fields)
  have l: "Suc (length (accounts ?s')) = length (accounts s)"
    using f by (simp add: a find_account_def length_tbl_erase)
  have d: "distinct (map a_eth_address (accounts s)) \<longrightarrow> find_account ?s' address = None"
    by (auto simp: a find_account_def by_address_def
        intro!: find_tbl_erase_distinct[where k=a_eth_address and v=address])
  have g: "gc_store ?s' = gc_store s @ [\<lparr>g_id = gc_store_next s, g_storage_id = a_id r\<rparr>]"
    by (simp add: eq delete_account_fields)
  have st: "storage ?s' = storage s"
    by (simp add: eq delete_account_fields)
  have c: "(case a_code_hash r of
          None \<Rightarrow> codes ?s' = codes s \<and> gc_code ?s' = gc_code s
        | Some h \<Rightarrow>
            (case find_code s h of
               None \<Rightarrow> codes ?s' = codes s \<and> gc_code ?s' = gc_code s
             | Some c \<Rightarrow>
                 codes ?s' = tbl_modify (by_codehash h) dec_ref_count (codes s)
               \<and> (\<exists>c'. find_code ?s' h = Some c'
                        \<and> unat (c_ref_count c') = unat (c_ref_count c) - 1
                        \<and> c_code c' = c_code c \<and> c_id c' = c_id c)
               \<and> gc_code ?s' =
                   (if c_ref_count c \<le> 1
                    then gc_code s @ [\<lparr>gc_id = gc_code_next s, gc_code_id = c_id c\<rparr>]
                    else gc_code s)))"
  proof (cases "a_code_hash r")
    case None
    then show ?thesis by (simp add: eq delete_account_codes find_code_def)
  next
    case (Some h)
    note rh = this
    show ?thesis
    proof (cases "find_code s h")
      case None
      with rh show ?thesis by (simp add: eq delete_account_codes find_code_def)
    next
      case (Some c)
      have cs: "codes ?s' = tbl_modify (by_codehash h) dec_ref_count (codes s)"
        using Some rh by (simp add: eq delete_account_codes find_code_def)
      have "by_codehash h c"
        using Some find_Some_P[of "by_codehash h" "codes s" c] by (simp add: find_code_def)
      then have "by_codehash h (dec_ref_count c)"
        by (simp add: by_codehash_def)
      then have "find_code ?s' h = Some (dec_ref_count c)"
        using Some by (simp add: find_code_def cs find_tbl_modify_same)
      then have ex: "\<exists>c'. find_code ?s' h = Some c'
                        \<and> unat (c_ref_count c') = unat (c_ref_count c) - 1
                        \<and> c_code c' = c_code c \<and> c_id c' = c_id c"
        by simp
      have gq: "gc_code ?s' = (if c_ref_count c \<le> 1
                    then gc_code s @ [\<lparr>gc_id = gc_code_next s, gc_code_id = c_id c\<rparr>]
                    else gc_code s)"
        using Some rh by (simp add: eq delete_account_codes find_code_def)
      show ?thesis using Some rh cs ex gq by simp
    qed
  qed
  show ?thesis unfolding Let_def using a l d g st c by blast
qed

theorem update_account_deletion_witness:
  "find_account demo_state 0xA = Some demo_row_A
   \<and> Some demo_account_A \<noteq> None
   \<and> distinct (map a_eth_address (accounts demo_state))
   \<and> (let s' = update_account demo_state 0xA (Some demo_account_A) None in
        accounts s' = [demo_row_B]
      \<and> find_account s' 0xA = None
      \<and> gc_store s' = [\<lparr>g_id = 0, g_storage_id = 0\<rparr>]
      \<and> storage s' = storage demo_state
      \<and> codes s' = [\<lparr>c_id = 0, c_ref_count = 0, c_code = demo_code, c_code_hash = 0x11\<rparr>]
      \<and> gc_code s' = [\<lparr>gc_id = 0, gc_code_id = 0\<rparr>])"
proof -
  have h1: "find_account demo_state 0xA = Some demo_row_A"
    by (simp add: find_account_def demo_state_def demo_row_A_def demo_row_B_def by_address_def)
  have h2: "Some demo_account_A \<noteq> None"
    by simp
  have h3: "distinct (map a_eth_address (accounts demo_state))"
    by (simp add: demo_state_def demo_row_A_def demo_row_B_def)
  show ?thesis
    using h1 h2 h3 update_account_deletion [OF h1 h2]
    by (simp add: Let_def demo_state_def demo_row_A_def demo_row_B_def by_address_def
        by_codehash_def find_code_def dec_ref_count_def)
qed

section \<open>Garbage collection\<close>

subsection \<open>The slot loop and the storage queue\<close>

lemma subseq_tbl_erase: "subseq (tbl_erase P xs) xs"
  by (induction xs) auto

lemma filter_tbl_erase_neg: "filter (\<lambda>x. \<not> P x) (tbl_erase P xs) = filter (\<lambda>x. \<not> P x) xs"
  by (induction xs) auto

lemma filter_tbl_erase_pos:
  "find P xs \<noteq> None \<Longrightarrow> Suc (length (filter P (tbl_erase P xs))) = length (filter P xs)"
  by (induction xs) auto

lemma find_None_filter: "find P xs = None \<Longrightarrow> filter P xs = [] \<and> filter (\<lambda>x. \<not> P x) xs = xs"
  by (induction xs) (auto split: if_splits)

lemma length_tbl_erase_found:
  "find P xs \<noteq> None \<Longrightarrow> Suc (length (tbl_erase P xs)) = length xs"
  by (induction xs) (auto split: if_splits)


lemma drain_scope_le: "unat (fst (drain_scope m scope db)) \<le> unat m"
proof (induction m scope db rule: drain_scope.induct)
  case (1 m scope db)
  show ?case
  proof (cases "m \<noteq> 0 \<and> find (in_scope scope) db \<noteq> None")
    case True
    then have "unat (fst (drain_scope (m - 1) scope (tbl_erase (in_scope scope) db))) \<le> unat (m - 1)"
      using 1 by blast
    moreover have "unat (m - 1) \<le> unat m" using True by (simp add: unat_minus_one)
    ultimately show ?thesis using True by (subst drain_scope.simps) simp
  next
    case False
    then have "drain_scope m scope db = (m, db)"
      by (subst drain_scope.simps) auto
    then show ?thesis by simp
  qed
qed

lemma drain_scope_work:
  "length (snd (drain_scope m scope db)) + (unat m - unat (fst (drain_scope m scope db))) = length db"
proof (induction m scope db rule: drain_scope.induct)
  case (1 m scope db)
  show ?case
  proof (cases "m \<noteq> 0 \<and> find (in_scope scope) db \<noteq> None")
    case True
    let ?r = "drain_scope (m - 1) scope (tbl_erase (in_scope scope) db)"
    have ih: "length (snd ?r) + (unat (m - 1) - unat (fst ?r)) = length (tbl_erase (in_scope scope) db)"
      using 1 True by blast
    have le: "unat (fst ?r) \<le> unat (m - 1)" by (rule drain_scope_le)
    have m1: "unat (m - 1) = unat m - 1" and mpos: "0 < unat m"
      using True by (simp_all add: unat_minus_one unat_gt_0)
    have len: "Suc (length (tbl_erase (in_scope scope) db)) = length db"
      using True by (simp add: length_tbl_erase_found)
    have eq: "drain_scope m scope db = ?r"
      using True by (subst drain_scope.simps) simp
    show ?thesis unfolding eq using ih le m1 mpos len by linarith
  next
    case False
    then have "drain_scope m scope db = (m, db)"
      by (subst drain_scope.simps) auto
    then show ?thesis by simp
  qed
qed

lemma drain_scope_subseq: "subseq (snd (drain_scope m scope db)) db"
proof (induction m scope db rule: drain_scope.induct)
  case (1 m scope db)
  show ?case
  proof (cases "m \<noteq> 0 \<and> find (in_scope scope) db \<noteq> None")
    case True
    then have "subseq (snd (drain_scope (m - 1) scope (tbl_erase (in_scope scope) db))) (tbl_erase (in_scope scope) db)"
      using 1 by blast
    then have "subseq (snd (drain_scope (m - 1) scope (tbl_erase (in_scope scope) db))) db"
      using subseq_tbl_erase subseq_order.order_trans by blast
    then show ?thesis using True by (subst drain_scope.simps) simp
  next
    case False
    then have "drain_scope m scope db = (m, db)"
      by (subst drain_scope.simps) auto
    then show ?thesis by simp
  qed
qed

lemma drain_scope_stop:
  "fst (drain_scope m scope db) = 0 \<or> find (in_scope scope) (snd (drain_scope m scope db)) = None"
proof (induction m scope db rule: drain_scope.induct)
  case (1 m scope db)
  show ?case
  proof (cases "m \<noteq> 0 \<and> find (in_scope scope) db \<noteq> None")
    case True
    then have "drain_scope m scope db = drain_scope (m - 1) scope (tbl_erase (in_scope scope) db)"
      by (subst drain_scope.simps) simp
    then show ?thesis using 1 True by simp
  next
    case False
    then have "drain_scope m scope db = (m, db)"
      by (subst drain_scope.simps) auto
    then show ?thesis using False by auto
  qed
qed

lemma drain_scope_enough:
  "scope_rows scope db \<le> unat m \<Longrightarrow>
   unat (fst (drain_scope m scope db)) = unat m - scope_rows scope db
   \<and> snd (drain_scope m scope db) = filter (\<lambda>x. \<not> in_scope scope x) db"
proof (induction m scope db rule: drain_scope.induct)
  case (1 m scope db)
  show ?case
  proof (cases "m \<noteq> 0 \<and> find (in_scope scope) db \<noteq> None")
    case True
    let ?db = "tbl_erase (in_scope scope) db"
    have rows: "Suc (scope_rows scope ?db) = scope_rows scope db"
      using True by (simp add: scope_rows_def filter_tbl_erase_pos)
    have m1: "unat (m - 1) = unat m - 1" using True by (simp add: unat_minus_one)
    have "scope_rows scope ?db \<le> unat (m - 1)" using rows m1 "1.prems" by linarith
    then have ih: "unat (fst (drain_scope (m - 1) scope ?db)) = unat (m - 1) - scope_rows scope ?db
        \<and> snd (drain_scope (m - 1) scope ?db) = filter (\<lambda>x. \<not> in_scope scope x) ?db"
      using 1 True by blast
    have eq: "drain_scope m scope db = drain_scope (m - 1) scope ?db"
      using True by (subst drain_scope.simps) simp
    show ?thesis unfolding eq using ih rows m1 by (simp add: filter_tbl_erase_neg)
  next
    case False
    have eq: "drain_scope m scope db = (m, db)"
      using False by (subst drain_scope.simps) auto
    from False "1.prems" have "find (in_scope scope) db = None"
      by (auto simp: scope_rows_def unat_eq_zero find_None_iff filter_empty_conv)
    then show ?thesis unfolding eq by (simp add: scope_rows_def find_None_filter)
  qed
qed


lemma gc_store_loop_stop:
  "m = 0 \<or> gc_store s = [] \<Longrightarrow> gc_store_loop m s = (m, s)"
  by (subst gc_store_loop.simps) auto

lemma gc_store_loop_break:
  "m \<noteq> 0 \<Longrightarrow> gc_store s = i # rest \<Longrightarrow>
   fst (drain_scope m (g_storage_id i) (storage s)) = 0 \<Longrightarrow>
   gc_store_loop m s = (0, s\<lparr>storage := snd (drain_scope m (g_storage_id i) (storage s))\<rparr>)"
  by (subst gc_store_loop.simps) (simp add: Let_def)

lemma gc_store_loop_next:
  "m \<noteq> 0 \<Longrightarrow> gc_store s = i # rest \<Longrightarrow>
   fst (drain_scope m (g_storage_id i) (storage s)) \<noteq> 0 \<Longrightarrow>
   gc_store_loop m s =
     gc_store_loop (fst (drain_scope m (g_storage_id i) (storage s)) - 1)
       (s\<lparr>storage := snd (drain_scope m (g_storage_id i) (storage s)), gc_store := rest\<rparr>)"
  by (subst gc_store_loop.simps) (simp add: Let_def)

lemma gc_store_loop_induct [case_names stopped broke step]:
  fixes P :: "u32 \<Rightarrow> state \<Rightarrow> bool"
  assumes stopped: "\<And>m s. m = 0 \<or> gc_store s = [] \<Longrightarrow> P m s"
    and broke: "\<And>m s i rest. m \<noteq> 0 \<Longrightarrow> gc_store s = i # rest \<Longrightarrow>
           fst (drain_scope m (g_storage_id i) (storage s)) = 0 \<Longrightarrow> P m s"
    and step: "\<And>m s i rest. m \<noteq> 0 \<Longrightarrow> gc_store s = i # rest \<Longrightarrow>
           fst (drain_scope m (g_storage_id i) (storage s)) \<noteq> 0 \<Longrightarrow>
           P (fst (drain_scope m (g_storage_id i) (storage s)) - 1)
             (s\<lparr>storage := snd (drain_scope m (g_storage_id i) (storage s)), gc_store := rest\<rparr>) \<Longrightarrow>
           P m s"
  shows "P m s"
proof (induction m s rule: gc_store_loop.induct)
  case (1 m s)
  show ?case
  proof (cases "m = 0 \<or> gc_store s = []")
    case True
    then show ?thesis by (rule stopped)
  next
    case False
    then obtain i rest where q: "gc_store s = i # rest" and m: "m \<noteq> 0"
      by (cases "gc_store s") auto
    show ?thesis
    proof (cases "fst (drain_scope m (g_storage_id i) (storage s)) = 0")
      case True
      with m q show ?thesis by (rule broke)
    next
      case False
      have "P (fst (drain_scope m (g_storage_id i) (storage s)) - 1)
             ((s\<lparr>storage := snd (drain_scope m (g_storage_id i) (storage s))\<rparr>)\<lparr>gc_store := rest\<rparr>)"
        using "1"[OF m q refl refl refl False] .
      then show ?thesis using step[OF m q False] by simp
    qed
  qed
qed

lemma gc_store_loop_frame:
  "snd (gc_store_loop m s) =
     s\<lparr>storage := storage (snd (gc_store_loop m s)), gc_store := gc_store (snd (gc_store_loop m s))\<rparr>"
proof (induction m s rule: gc_store_loop_induct)
  case (stopped m s)
  then show ?case by (simp add: gc_store_loop_stop)
next
  case (broke m s i rest)
  then show ?case by (simp add: gc_store_loop_break)
next
  case (step m s i rest)
  let ?d = "drain_scope m (g_storage_id i) (storage s)"
  let ?r = "gc_store_loop (fst ?d - 1) (s\<lparr>storage := snd ?d, gc_store := rest\<rparr>)"
  have eq: "gc_store_loop m s = ?r" using step by (simp add: gc_store_loop_next)
  have "snd ?r = (s\<lparr>storage := snd ?d, gc_store := rest\<rparr>)\<lparr>storage := storage (snd ?r), gc_store := gc_store (snd ?r)\<rparr>"
    using step.IH .
  then show ?case unfolding eq by simp
qed

lemma gc_store_loop_le: "unat (fst (gc_store_loop m s)) \<le> unat m"
proof (induction m s rule: gc_store_loop_induct)
  case (stopped m s)
  then show ?case by (simp add: gc_store_loop_stop)
next
  case (broke m s i rest)
  then show ?case by (simp add: gc_store_loop_break)
next
  case (step m s i rest)
  let ?d = "drain_scope m (g_storage_id i) (storage s)"
  have "unat (fst ?d - 1) \<le> unat (fst ?d)" using step by (simp add: unat_minus_one)
  moreover have "unat (fst ?d) \<le> unat m" by (rule drain_scope_le)
  ultimately show ?case using step by (simp add: gc_store_loop_next)
qed

lemma gc_store_loop_work:
  "length (storage (snd (gc_store_loop m s))) + length (gc_store (snd (gc_store_loop m s)))
     + (unat m - unat (fst (gc_store_loop m s)))
   = length (storage s) + length (gc_store s)"
proof (induction m s rule: gc_store_loop_induct)
  case (stopped m s)
  then show ?case by (simp add: gc_store_loop_stop)
next
  case (broke m s i rest)
  let ?d = "drain_scope m (g_storage_id i) (storage s)"
  have "length (snd ?d) + (unat m - unat (fst ?d)) = length (storage s)"
    by (rule drain_scope_work)
  then show ?case using broke by (simp add: gc_store_loop_break)
next
  case (step m s i rest)
  let ?d = "drain_scope m (g_storage_id i) (storage s)"
  let ?r = "gc_store_loop (fst ?d - 1) (s\<lparr>storage := snd ?d, gc_store := rest\<rparr>)"
  have eq: "gc_store_loop m s = ?r" using step by (simp add: gc_store_loop_next)
  have w: "length (snd ?d) + (unat m - unat (fst ?d)) = length (storage s)"
    by (rule drain_scope_work)
  have le1: "unat (fst ?d) \<le> unat m" by (rule drain_scope_le)
  have le2: "unat (fst ?r) \<le> unat (fst ?d - 1)" by (rule gc_store_loop_le)
  have m1: "unat (fst ?d - 1) = unat (fst ?d) - 1" and pos: "0 < unat (fst ?d)"
    using step by (simp_all add: unat_minus_one unat_gt_0)
  have ih: "length (storage (snd ?r)) + length (gc_store (snd ?r)) + (unat (fst ?d - 1) - unat (fst ?r))
       = length (snd ?d) + length rest"
    using step.IH by simp
  show ?case unfolding eq using ih w le1 le2 m1 pos step(2) by simp
qed

lemma gc_store_loop_subseq:
  "subseq (storage (snd (gc_store_loop m s))) (storage s)
   \<and> suffix (gc_store (snd (gc_store_loop m s))) (gc_store s)"
proof (induction m s rule: gc_store_loop_induct)
  case (stopped m s)
  then show ?case by (simp add: gc_store_loop_stop)
next
  case (broke m s i rest)
  then show ?case by (simp add: gc_store_loop_break drain_scope_subseq)
next
  case (step m s i rest)
  let ?d = "drain_scope m (g_storage_id i) (storage s)"
  have "subseq (snd ?d) (storage s)" by (rule drain_scope_subseq)
  then show ?case using step
    by (auto simp: gc_store_loop_next suffix_Cons intro: subseq_order.order_trans)
qed

lemma gc_store_loop_exit:
  "fst (gc_store_loop m s) = 0 \<or> gc_store (snd (gc_store_loop m s)) = []"
proof (induction m s rule: gc_store_loop_induct)
  case (stopped m s)
  then show ?case by (auto simp: gc_store_loop_stop)
next
  case (broke m s i rest)
  then show ?case by (simp add: gc_store_loop_break)
next
  case (step m s i rest)
  then show ?case by (simp add: gc_store_loop_next)
qed


lemma filter_insert_scope:
  "length (filter (\<lambda>x. fst x \<in> insert a B) xs) =
   length (filter (\<lambda>x. fst x = a) xs)
   + length (filter (\<lambda>x. fst x \<in> B) (filter (\<lambda>x. fst x \<noteq> a) xs))"
  by (induction xs) auto

lemma pending_storage_work_Cons:
  "gc_store s = i # rest \<Longrightarrow>
   pending_storage_work s =
     Suc (scope_rows (g_storage_id i) (storage s))
     + pending_storage_work
         (s\<lparr>storage := filter (\<lambda>x. \<not> in_scope (g_storage_id i) x) (storage s), gc_store := rest\<rparr>)"
  using filter_insert_scope[of "g_storage_id i" "g_storage_id ` set rest" "storage s"]
  by (simp add: pending_storage_work_def scope_rows_def queued_scope_def[abs_def] in_scope_def[abs_def])

lemma gc_store_loop_enough:
  "pending_storage_work s \<le> unat m \<Longrightarrow>
   gc_store (snd (gc_store_loop m s)) = []
   \<and> unat (fst (gc_store_loop m s)) = unat m - pending_storage_work s
   \<and> storage (snd (gc_store_loop m s)) = filter (\<lambda>x. \<not> queued_scope (gc_store s) x) (storage s)"
proof (induction m s rule: gc_store_loop_induct)
  case (stopped m s)
  then have "gc_store s = []"
    by (auto simp: pending_storage_work_def unat_eq_zero)
  then show ?case
    by (simp add: gc_store_loop_stop pending_storage_work_def queued_scope_def)
next
  case (broke m s i rest)
  let ?d = "drain_scope m (g_storage_id i) (storage s)"
  have p: "pending_storage_work s \<ge> Suc (scope_rows (g_storage_id i) (storage s))"
    using pending_storage_work_Cons[OF broke(2)] by simp
  then have "scope_rows (g_storage_id i) (storage s) \<le> unat m" using broke.prems by simp
  then have "unat (fst ?d) = unat m - scope_rows (g_storage_id i) (storage s)"
    using drain_scope_enough by blast
  then have "unat (fst ?d) > 0" using p broke.prems by simp
  then show ?case using broke(3) by simp
next
  case (step m s i rest)
  let ?d = "drain_scope m (g_storage_id i) (storage s)"
  let ?s2 = "s\<lparr>storage := snd ?d, gc_store := rest\<rparr>"
  let ?r = "gc_store_loop (fst ?d - 1) ?s2"
  have eq: "gc_store_loop m s = ?r" using step by (simp add: gc_store_loop_next)
  have p: "pending_storage_work s =
     Suc (scope_rows (g_storage_id i) (storage s))
     + pending_storage_work
         (s\<lparr>storage := filter (\<lambda>x. \<not> in_scope (g_storage_id i) x) (storage s), gc_store := rest\<rparr>)"
    using step(2) by (rule pending_storage_work_Cons)
  then have "scope_rows (g_storage_id i) (storage s) \<le> unat m" using step.prems by simp
  then have d: "unat (fst ?d) = unat m - scope_rows (g_storage_id i) (storage s)"
     and ds: "snd ?d = filter (\<lambda>x. \<not> in_scope (g_storage_id i) x) (storage s)"
    using drain_scope_enough by blast+
  have m1: "unat (fst ?d - 1) = unat (fst ?d) - 1"
    using step(3) by (simp add: unat_minus_one)
  have p2: "pending_storage_work s = Suc (scope_rows (g_storage_id i) (storage s)) + pending_storage_work ?s2"
    using p ds by simp
  then have "pending_storage_work ?s2 \<le> unat (fst ?d - 1)"
    using step.prems d m1 by linarith
  then have ih: "gc_store (snd ?r) = []
      \<and> unat (fst ?r) = unat (fst ?d - 1) - pending_storage_work ?s2
      \<and> storage (snd ?r) = filter (\<lambda>x. \<not> queued_scope (gc_store ?s2) x) (storage ?s2)"
    using step.IH by blast
  have st: "filter (\<lambda>x. \<not> queued_scope rest x) (filter (\<lambda>x. \<not> in_scope (g_storage_id i) x) (storage s))
       = filter (\<lambda>x. \<not> queued_scope (i # rest) x) (storage s)"
    by (auto simp: queued_scope_def in_scope_def intro: filter_cong)
  show ?case unfolding eq using ih p2 d m1 ds st step(2) by simp
qed

subsection \<open>The code queue\<close>

lemma unat_minus_two:
  fixes m :: u32
  assumes a: "m \<noteq> 0" and b: "m - 1 \<noteq> 0"
  shows "unat (m - 1 - 1) = unat m - 2" and "2 \<le> unat m"
proof -
  have 1: "unat (m - 1) = unat m - 1" using a by (rule unat_minus_one)
  have 2: "unat (m - 1 - 1) = unat (m - 1) - 1" using b by (rule unat_minus_one)
  have 3: "unat (m - 1) \<noteq> 0" using b unat_eq_zero by blast
  show "unat (m - 1 - 1) = unat m - 2" using 1 2 by linarith
  show "2 \<le> unat m" using 1 3 by linarith
qed

lemma unat_pos_u32: "(m :: u32) \<noteq> 0 \<Longrightarrow> 1 \<le> unat m"
  using unat_eq_zero[of m] by linarith

lemma gc_code_loop_stop:
  "m = 0 \<or> gc_code s = [] \<Longrightarrow> gc_code_loop m s = (m, s)"
  by (subst gc_code_loop.simps) auto

lemma gc_code_loop_collect_break:
  "m \<noteq> 0 \<Longrightarrow> gc_code s = j # rest \<Longrightarrow> collectable s j \<Longrightarrow> m - 1 = 0 \<Longrightarrow>
   gc_code_loop m s = (0, s\<lparr>codes := tbl_erase (by_code_id (gc_code_id j)) (codes s)\<rparr>)"
  by (subst gc_code_loop.simps) (simp add: Let_def)

lemma gc_code_loop_collect_next:
  "m \<noteq> 0 \<Longrightarrow> gc_code s = j # rest \<Longrightarrow> collectable s j \<Longrightarrow> m - 1 \<noteq> 0 \<Longrightarrow>
   gc_code_loop m s =
     gc_code_loop (m - 1 - 1)
       (s\<lparr>codes := tbl_erase (by_code_id (gc_code_id j)) (codes s), gc_code := rest\<rparr>)"
  by (subst gc_code_loop.simps) (simp add: Let_def)

lemma gc_code_loop_skip:
  "m \<noteq> 0 \<Longrightarrow> gc_code s = j # rest \<Longrightarrow> \<not> collectable s j \<Longrightarrow>
   gc_code_loop m s = gc_code_loop (m - 1) (s\<lparr>gc_code := rest\<rparr>)"
  by (subst gc_code_loop.simps) (simp add: Let_def)

lemma gc_code_loop_induct [case_names stopped broke collect skip]:
  fixes P :: "u32 \<Rightarrow> state \<Rightarrow> bool"
  assumes stopped: "\<And>m s. m = 0 \<or> gc_code s = [] \<Longrightarrow> P m s"
    and broke: "\<And>m s j rest. m \<noteq> 0 \<Longrightarrow> gc_code s = j # rest \<Longrightarrow> collectable s j \<Longrightarrow>
           m - 1 = 0 \<Longrightarrow> P m s"
    and collect: "\<And>m s j rest. m \<noteq> 0 \<Longrightarrow> gc_code s = j # rest \<Longrightarrow> collectable s j \<Longrightarrow>
           m - 1 \<noteq> 0 \<Longrightarrow>
           P (m - 1 - 1) (s\<lparr>codes := tbl_erase (by_code_id (gc_code_id j)) (codes s), gc_code := rest\<rparr>) \<Longrightarrow>
           P m s"
    and skip: "\<And>m s j rest. m \<noteq> 0 \<Longrightarrow> gc_code s = j # rest \<Longrightarrow> \<not> collectable s j \<Longrightarrow>
           P (m - 1) (s\<lparr>gc_code := rest\<rparr>) \<Longrightarrow> P m s"
  shows "P m s"
proof (induction m s rule: gc_code_loop.induct)
  case (1 m s)
  show ?case
  proof (cases "m = 0 \<or> gc_code s = []")
    case True
    then show ?thesis by (rule stopped)
  next
    case False
    then obtain j rest where q: "gc_code s = j # rest" and m: "m \<noteq> 0"
      by (cases "gc_code s") auto
    show ?thesis
    proof (cases "collectable s j")
      case True
      note c = this
      show ?thesis
      proof (cases "m - 1 = 0")
        case True
        with m q c show ?thesis by (rule broke)
      next
        case False
        have "P ((if m \<noteq> 0 \<and> collectable s j then m - 1 else m) - 1)
              ((if m \<noteq> 0 \<and> collectable s j
                then s\<lparr>codes := tbl_erase (by_code_id (gc_code_id j)) (codes s)\<rparr> else s)\<lparr>gc_code := rest\<rparr>)"
          using m c False by (intro "1"[OF m q refl refl refl]) simp
        then show ?thesis using collect[OF m q c False] m c by simp
      qed
    next
      case False
      have "P ((if m \<noteq> 0 \<and> collectable s j then m - 1 else m) - 1)
              ((if m \<noteq> 0 \<and> collectable s j
                then s\<lparr>codes := tbl_erase (by_code_id (gc_code_id j)) (codes s)\<rparr> else s)\<lparr>gc_code := rest\<rparr>)"
        using m False by (intro "1"[OF m q refl refl refl]) simp
      then show ?thesis using skip[OF m q False] m False by simp
    qed
  qed
qed

lemma collectable_found: "collectable s j \<Longrightarrow> find (by_code_id (gc_code_id j)) (codes s) \<noteq> None"
  by (auto simp: collectable_def split: option.splits)

lemma gc_code_loop_frame:
  "snd (gc_code_loop m s) =
     s\<lparr>codes := codes (snd (gc_code_loop m s)), gc_code := gc_code (snd (gc_code_loop m s))\<rparr>"
proof (induction m s rule: gc_code_loop_induct)
  case (stopped m s)
  then have "gc_code_loop m s = (m, s)" by (rule gc_code_loop_stop)
  then show ?case by simp
next
  case (broke m s j rest)
  then have "gc_code_loop m s = (0, s\<lparr>codes := tbl_erase (by_code_id (gc_code_id j)) (codes s)\<rparr>)"
    by (rule gc_code_loop_collect_break)
  then show ?case by simp
next
  case (collect m s j rest)
  let ?s2 = "s\<lparr>codes := tbl_erase (by_code_id (gc_code_id j)) (codes s), gc_code := rest\<rparr>"
  let ?r = "gc_code_loop (m - 1 - 1) ?s2"
  have eq: "gc_code_loop m s = ?r" using collect(1-4) by (rule gc_code_loop_collect_next)
  have "snd ?r = ?s2\<lparr>codes := codes (snd ?r), gc_code := gc_code (snd ?r)\<rparr>"
    using collect.IH .
  then show ?case unfolding eq by simp
next
  case (skip m s j rest)
  let ?s2 = "s\<lparr>gc_code := rest\<rparr>"
  let ?r = "gc_code_loop (m - 1) ?s2"
  have eq: "gc_code_loop m s = ?r" using skip(1-3) by (rule gc_code_loop_skip)
  have "snd ?r = ?s2\<lparr>codes := codes (snd ?r), gc_code := gc_code (snd ?r)\<rparr>"
    using skip.IH .
  then show ?case unfolding eq by simp
qed

lemma gc_code_loop_le: "unat (fst (gc_code_loop m s)) \<le> unat m"
proof (induction m s rule: gc_code_loop_induct)
  case (stopped m s)
  then have "gc_code_loop m s = (m, s)" by (rule gc_code_loop_stop)
  then show ?case by simp
next
  case (broke m s j rest)
  then have "gc_code_loop m s = (0, s\<lparr>codes := tbl_erase (by_code_id (gc_code_id j)) (codes s)\<rparr>)"
    by (rule gc_code_loop_collect_break)
  then show ?case by simp
next
  case (collect m s j rest)
  let ?r = "gc_code_loop (m - 1 - 1)
      (s\<lparr>codes := tbl_erase (by_code_id (gc_code_id j)) (codes s), gc_code := rest\<rparr>)"
  have a: "unat (m - 1 - 1) \<le> unat m" using unat_minus_two(1)[OF collect(1,4)] by linarith
  have eq: "gc_code_loop m s = ?r"
    using collect(1-4) by (rule gc_code_loop_collect_next)
  have "unat (fst ?r) \<le> unat m" using collect.IH a by (rule order_trans)
  then show ?case unfolding eq .
next
  case (skip m s j rest)
  let ?r = "gc_code_loop (m - 1) (s\<lparr>gc_code := rest\<rparr>)"
  have a: "unat (m - 1) \<le> unat m" using skip(1) by (simp add: unat_minus_one)
  have eq: "gc_code_loop m s = ?r"
    using skip(1-3) by (rule gc_code_loop_skip)
  have "unat (fst ?r) \<le> unat m" using skip.IH a by (rule order_trans)
  then show ?case unfolding eq .
qed

lemma gc_code_loop_work:
  "length (codes (snd (gc_code_loop m s))) + length (gc_code (snd (gc_code_loop m s)))
     + (unat m - unat (fst (gc_code_loop m s)))
   = length (codes s) + length (gc_code s)"
proof (induction m s rule: gc_code_loop_induct)
  case (stopped m s)
  then have "gc_code_loop m s = (m, s)" by (rule gc_code_loop_stop)
  then show ?case by simp
next
  case (broke m s j rest)
  have "Suc (length (tbl_erase (by_code_id (gc_code_id j)) (codes s))) = length (codes s)"
    using broke collectable_found by (simp add: length_tbl_erase_found)
  moreover have "unat m = 1" using broke by (simp add: unat_minus_one unat_eq_zero)
  moreover have "gc_code_loop m s = (0, s\<lparr>codes := tbl_erase (by_code_id (gc_code_id j)) (codes s)\<rparr>)"
    using broke by (rule gc_code_loop_collect_break)
  ultimately show ?case using broke(2) by simp
next
  case (collect m s j rest)
  let ?s2 = "s\<lparr>codes := tbl_erase (by_code_id (gc_code_id j)) (codes s), gc_code := rest\<rparr>"
  let ?r = "gc_code_loop (m - 1 - 1) ?s2"
  have eq: "gc_code_loop m s = ?r" using collect(1-4) by (rule gc_code_loop_collect_next)
  have len: "Suc (length (tbl_erase (by_code_id (gc_code_id j)) (codes s))) = length (codes s)"
    using collect collectable_found by (simp add: length_tbl_erase_found)
  have m2: "unat (m - 1 - 1) = unat m - 2" and pos: "2 \<le> unat m"
    using unat_minus_two[OF collect(1,4)] by blast+
  have le: "unat (fst ?r) \<le> unat (m - 1 - 1)" by (rule gc_code_loop_le)
  have ih: "length (codes (snd ?r)) + length (gc_code (snd ?r)) + (unat (m - 1 - 1) - unat (fst ?r))
      = length (tbl_erase (by_code_id (gc_code_id j)) (codes s)) + length rest"
    using collect.IH by simp
  have q: "length (gc_code s) = Suc (length rest)" using collect(2) by simp
  show ?case unfolding eq using ih len m2 pos le q by linarith
next
  case (skip m s j rest)
  let ?s2 = "s\<lparr>gc_code := rest\<rparr>"
  let ?r = "gc_code_loop (m - 1) ?s2"
  have eq: "gc_code_loop m s = ?r" using skip(1-3) by (rule gc_code_loop_skip)
  have m1: "unat (m - 1) = unat m - 1" and pos: "1 \<le> unat m"
    using skip(1) unat_pos_u32[of m] by (simp_all add: unat_minus_one)
  have le: "unat (fst ?r) \<le> unat (m - 1)" by (rule gc_code_loop_le)
  have ih: "length (codes (snd ?r)) + length (gc_code (snd ?r)) + (unat (m - 1) - unat (fst ?r))
      = length (codes s) + length rest"
    using skip.IH by simp
  have q: "length (gc_code s) = Suc (length rest)" using skip(2) by simp
  show ?case unfolding eq using ih m1 pos le q by linarith
qed

lemma gc_code_loop_subseq:
  "subseq (codes (snd (gc_code_loop m s))) (codes s)
   \<and> suffix (gc_code (snd (gc_code_loop m s))) (gc_code s)"
proof (induction m s rule: gc_code_loop_induct)
  case (stopped m s)
  then have "gc_code_loop m s = (m, s)" by (rule gc_code_loop_stop)
  then show ?case by simp
next
  case (broke m s j rest)
  then have "gc_code_loop m s = (0, s\<lparr>codes := tbl_erase (by_code_id (gc_code_id j)) (codes s)\<rparr>)"
    by (rule gc_code_loop_collect_break)
  then show ?case by (simp add: subseq_tbl_erase)
next
  case (collect m s j rest)
  let ?s2 = "s\<lparr>codes := tbl_erase (by_code_id (gc_code_id j)) (codes s), gc_code := rest\<rparr>"
  let ?r = "gc_code_loop (m - 1 - 1) ?s2"
  have eq: "gc_code_loop m s = ?r" using collect(1-4) by (rule gc_code_loop_collect_next)
  have e: "subseq (tbl_erase (by_code_id (gc_code_id j)) (codes s)) (codes s)"
    by (rule subseq_tbl_erase)
  have ih: "subseq (codes (snd ?r)) (tbl_erase (by_code_id (gc_code_id j)) (codes s))"
     and ih2: "suffix (gc_code (snd ?r)) rest"
    using collect.IH by simp_all
  have "subseq (codes (snd ?r)) (codes s)"
    using ih e by (rule subseq_order.order_trans)
  moreover have "suffix (gc_code (snd ?r)) (gc_code s)"
    using ih2 collect(2) by (simp add: suffix_Cons)
  ultimately show ?case unfolding eq by simp
next
  case (skip m s j rest)
  let ?r = "gc_code_loop (m - 1) (s\<lparr>gc_code := rest\<rparr>)"
  have eq: "gc_code_loop m s = ?r" using skip(1-3) by (rule gc_code_loop_skip)
  have ih: "subseq (codes (snd ?r)) (codes s)" and ih2: "suffix (gc_code (snd ?r)) rest"
    using skip.IH by simp_all
  have "suffix (gc_code (snd ?r)) (gc_code s)"
    using ih2 skip(2) by (simp add: suffix_Cons)
  then show ?case unfolding eq using ih by simp
qed

lemma gc_code_loop_exit:
  "fst (gc_code_loop m s) = 0 \<or> gc_code (snd (gc_code_loop m s)) = []"
proof (induction m s rule: gc_code_loop_induct)
  case (stopped m s)
  then have "gc_code_loop m s = (m, s)" by (rule gc_code_loop_stop)
  then show ?case using stopped by auto
next
  case (broke m s j rest)
  then have "gc_code_loop m s = (0, s\<lparr>codes := tbl_erase (by_code_id (gc_code_id j)) (codes s)\<rparr>)"
    by (rule gc_code_loop_collect_break)
  then show ?case by simp
next
  case (collect m s j rest)
  have eq: "gc_code_loop m s = gc_code_loop (m - 1 - 1)
      (s\<lparr>codes := tbl_erase (by_code_id (gc_code_id j)) (codes s), gc_code := rest\<rparr>)"
    using collect(1-4) by (rule gc_code_loop_collect_next)
  show ?case unfolding eq using collect.IH .
next
  case (skip m s j rest)
  have eq: "gc_code_loop m s = gc_code_loop (m - 1) (s\<lparr>gc_code := rest\<rparr>)"
    using skip(1-3) by (rule gc_code_loop_skip)
  show ?case unfolding eq using skip.IH .
qed

lemma length_filter_mono:
  "(\<And>x. x \<in> set xs \<Longrightarrow> Q' x \<Longrightarrow> Q x) \<Longrightarrow> length (filter Q' xs) \<le> length (filter Q xs)"
  by (induction xs) auto

lemma filter_tbl_erase_le:
  assumes "find P xs = Some c" and "Q c" and "\<And>x. Q' x \<Longrightarrow> Q x"
  shows "Suc (length (filter Q' (tbl_erase P xs))) \<le> length (filter Q xs)"
  using assms(1)
proof (induction xs)
  case Nil
  then show ?case by simp
next
  case (Cons x xs)
  show ?case
  proof (cases "P x")
    case True
    then have "c = x" using Cons.prems by simp
    moreover have "length (filter Q' xs) \<le> length (filter Q xs)"
      using assms(3) by (intro length_filter_mono)
    ultimately show ?thesis using True assms(2) by simp
  next
    case False
    then have "Suc (length (filter Q' (tbl_erase P xs))) \<le> length (filter Q xs)"
      using Cons by simp
    then show ?thesis using False assms(3) by auto
  qed
qed

lemma collectable_row:
  "collectable s j \<Longrightarrow>
   \<exists>c. find (by_code_id (gc_code_id j)) (codes s) = Some c \<and> c_ref_count c = 0 \<and> c_id c = gc_code_id j"
  by (auto simp: collectable_def by_code_id_def split: option.splits dest: find_Some_P)

lemma pending_code_work_collect:
  assumes "gc_code s = j # rest" and "collectable s j"
  shows "pending_code_work
           (s\<lparr>codes := tbl_erase (by_code_id (gc_code_id j)) (codes s), gc_code := rest\<rparr>) + 2
         \<le> pending_code_work s"
proof -
  obtain c where f: "find (by_code_id (gc_code_id j)) (codes s) = Some c"
    and z: "c_ref_count c = 0" and k: "c_id c = gc_code_id j"
    using collectable_row[OF assms(2)] by blast
  have "queued_code (j # rest) c" using z k by (simp add: queued_code_def)
  moreover have "\<And>x. queued_code rest x \<Longrightarrow> queued_code (j # rest) x"
    by (simp add: queued_code_def)
  ultimately have "Suc (length (filter (queued_code rest) (tbl_erase (by_code_id (gc_code_id j)) (codes s))))
      \<le> length (filter (queued_code (j # rest)) (codes s))"
    using f by (intro filter_tbl_erase_le) auto
  then show ?thesis using assms(1) by (simp add: pending_code_work_def)
qed

lemma pending_code_work_skip:
  assumes "gc_code s = j # rest"
  shows "pending_code_work (s\<lparr>gc_code := rest\<rparr>) + 1 \<le> pending_code_work s"
proof -
  have "length (filter (queued_code rest) (codes s)) \<le> length (filter (queued_code (j # rest)) (codes s))"
    by (intro length_filter_mono) (simp add: queued_code_def)
  then show ?thesis using assms by (simp add: pending_code_work_def)
qed

lemma gc_code_loop_enough:
  "pending_code_work s \<le> unat m \<Longrightarrow>
   gc_code (snd (gc_code_loop m s)) = []
   \<and> unat m - pending_code_work s \<le> unat (fst (gc_code_loop m s))"
proof (induction m s rule: gc_code_loop_induct)
  case (stopped m s)
  then have "gc_code s = []"
    by (auto simp: pending_code_work_def unat_eq_zero)
  moreover have "gc_code_loop m s = (m, s)" using stopped(1) by (rule gc_code_loop_stop)
  ultimately show ?case by simp
next
  case (broke m s j rest)
  have "2 \<le> pending_code_work s"
    using pending_code_work_collect[OF broke(2,3)] by linarith
  moreover have "unat m = 1"
    using broke(1,4) unat_minus_one[of m] unat_pos_u32[of m] by simp
  ultimately show ?case using broke.prems by linarith
next
  case (collect m s j rest)
  let ?s2 = "s\<lparr>codes := tbl_erase (by_code_id (gc_code_id j)) (codes s), gc_code := rest\<rparr>"
  let ?r = "gc_code_loop (m - 1 - 1) ?s2"
  have eq: "gc_code_loop m s = ?r" using collect(1-4) by (rule gc_code_loop_collect_next)
  have p: "pending_code_work ?s2 + 2 \<le> pending_code_work s"
    using collect(2,3) by (rule pending_code_work_collect)
  have m2: "unat (m - 1 - 1) = unat m - 2" and pos: "2 \<le> unat m"
    using unat_minus_two[OF collect(1,4)] by blast+
  have "pending_code_work ?s2 \<le> unat (m - 1 - 1)" using p m2 collect.prems by linarith
  then have ih: "gc_code (snd ?r) = []"
     and ih2: "unat (m - 1 - 1) - pending_code_work ?s2 \<le> unat (fst ?r)"
    using collect.IH by blast+
  have "unat m - pending_code_work s \<le> unat (fst ?r)"
    using ih2 p m2 pos by linarith
  then show ?case unfolding eq using ih by simp
next
  case (skip m s j rest)
  let ?s2 = "s\<lparr>gc_code := rest\<rparr>"
  let ?r = "gc_code_loop (m - 1) ?s2"
  have eq: "gc_code_loop m s = ?r" using skip(1-3) by (rule gc_code_loop_skip)
  have p: "pending_code_work ?s2 + 1 \<le> pending_code_work s"
    using skip(2) by (rule pending_code_work_skip)
  have m1: "unat (m - 1) = unat m - 1" and pos: "1 \<le> unat m"
    using skip(1) unat_pos_u32[of m] by (simp_all add: unat_minus_one)
  have "pending_code_work ?s2 \<le> unat (m - 1)" using p m1 skip.prems by linarith
  then have ih: "gc_code (snd ?r) = []"
     and ih2: "unat (m - 1) - pending_code_work ?s2 \<le> unat (fst ?r)"
    using skip.IH by blast+
  have "unat m - pending_code_work s \<le> unat (fst ?r)"
    using ih2 p m1 pos by linarith
  then show ?case unfolding eq using ih by simp
qed

lemma gc_store_loop_codes:
  "codes (snd (gc_store_loop m s)) = codes s" "gc_code (snd (gc_store_loop m s)) = gc_code s"
  by (subst gc_store_loop_frame, simp)+

lemma gc_code_loop_storage:
  "storage (snd (gc_code_loop m s)) = storage s" "gc_store (snd (gc_code_loop m s)) = gc_store s"
  by (subst gc_code_loop_frame, simp)+

subsection \<open>The whole collector\<close>

lemma gc_run_fst: "fst (gc_run s n) = fst (gc_code_loop (fst (gc_store_loop n s)) (snd (gc_store_loop n s)))"
  and gc_run_snd: "snd (gc_run s n) = snd (gc_code_loop (fst (gc_store_loop n s)) (snd (gc_store_loop n s)))"
  by (simp_all add: gc_run_def Let_def)

lemma gc_run_le: "unat (fst (gc_run s n)) \<le> unat n"
  unfolding gc_run_fst
  using gc_code_loop_le gc_store_loop_le by (rule order_trans)

lemma gc_run_work: "table_rows (snd (gc_run s n)) + (unat n - unat (fst (gc_run s n))) = table_rows s"
proof -
  let ?r1 = "gc_store_loop n s"
  let ?r2 = "gc_code_loop (fst ?r1) (snd ?r1)"
  have w1: "length (storage (snd ?r1)) + length (gc_store (snd ?r1)) + (unat n - unat (fst ?r1))
      = length (storage s) + length (gc_store s)"
    by (rule gc_store_loop_work)
  have w2: "length (codes (snd ?r2)) + length (gc_code (snd ?r2)) + (unat (fst ?r1) - unat (fst ?r2))
      = length (codes (snd ?r1)) + length (gc_code (snd ?r1))"
    by (rule gc_code_loop_work)
  have l1: "unat (fst ?r1) \<le> unat n" by (rule gc_store_loop_le)
  have l2: "unat (fst ?r2) \<le> unat (fst ?r1)" by (rule gc_code_loop_le)
  have c1: "length (codes (snd ?r1)) = length (codes s)" "length (gc_code (snd ?r1)) = length (gc_code s)"
    by (simp_all add: gc_store_loop_codes)
  have c2: "length (storage (snd ?r2)) = length (storage (snd ?r1))"
           "length (gc_store (snd ?r2)) = length (gc_store (snd ?r1))"
    by (simp_all add: gc_code_loop_storage)
  show ?thesis
    unfolding gc_run_fst gc_run_snd table_rows_def using w1 w2 l1 l2 c1 c2 by linarith
qed

lemma gc_run_subseq:
  "subseq (storage (snd (gc_run s n))) (storage s)"
  "suffix (gc_store (snd (gc_run s n))) (gc_store s)"
  "subseq (codes (snd (gc_run s n))) (codes s)"
  "suffix (gc_code (snd (gc_run s n))) (gc_code s)"
  unfolding gc_run_snd
  using gc_code_loop_subseq[of "fst (gc_store_loop n s)" "snd (gc_store_loop n s)"]
        gc_store_loop_subseq[of n s]
  by (simp_all add: gc_code_loop_storage gc_store_loop_codes)

lemma gc_run_frame:
  "snd (gc_run s n) =
     s\<lparr>storage := storage (snd (gc_run s n)), gc_store := gc_store (snd (gc_run s n)),
       codes := codes (snd (gc_run s n)), gc_code := gc_code (snd (gc_run s n))\<rparr>"
proof -
  let ?r1 = "gc_store_loop n s"
  let ?r2 = "gc_code_loop (fst ?r1) (snd ?r1)"
  have f1: "snd ?r1 = s\<lparr>storage := storage (snd ?r1), gc_store := gc_store (snd ?r1)\<rparr>"
    by (rule gc_store_loop_frame)
  have f2: "snd ?r2 = (snd ?r1)\<lparr>codes := codes (snd ?r2), gc_code := gc_code (snd ?r2)\<rparr>"
    by (rule gc_code_loop_frame)
  have "snd ?r2 = (s\<lparr>storage := storage (snd ?r1), gc_store := gc_store (snd ?r1)\<rparr>)
                     \<lparr>codes := codes (snd ?r2), gc_code := gc_code (snd ?r2)\<rparr>"
    using f1 f2 by simp
  then have "snd ?r2 = s\<lparr>storage := storage (snd ?r2), gc_store := gc_store (snd ?r2),
       codes := codes (snd ?r2), gc_code := gc_code (snd ?r2)\<rparr>"
    by (simp add: gc_code_loop_storage)
  then show ?thesis unfolding gc_run_snd .
qed

lemma gc_run_exit:
  "fst (gc_run s n) = 0 \<or> (gc_store (snd (gc_run s n)) = [] \<and> gc_code (snd (gc_run s n)) = [])"
proof -
  let ?r1 = "gc_store_loop n s"
  let ?r2 = "gc_code_loop (fst ?r1) (snd ?r1)"
  show ?thesis
  proof (cases "fst ?r1 = 0")
    case True
    then have "?r2 = (0, snd ?r1)" by (simp add: gc_code_loop_stop)
    then show ?thesis unfolding gc_run_fst by simp
  next
    case False
    then have "gc_store (snd ?r1) = []" using gc_store_loop_exit[of n s] by simp
    then have "gc_store (snd ?r2) = []" by (simp add: gc_code_loop_storage)
    then show ?thesis unfolding gc_run_fst gc_run_snd
      using gc_code_loop_exit[of "fst ?r1" "snd ?r1"] by auto
  qed
qed

text \<open>
  C2. For every budget \<open>n\<close>, \<^verbatim>\<open>gc(n)\<close> performs at most \<open>n\<close> units of work, a unit being
  the deletion of one slot, one queue entry or one code object: the tables lose exactly as
  many rows as budget is spent, rows are only deleted (never changed or added) and nothing
  else in the state changes. It stops only with the budget at zero or both queues empty,
  and it returns true exactly when both queues are empty at return.
\<close>

theorem gc_bounded_budget:
  "(let r = gc_run s n; s' = snd r; left = fst r in
      unat left \<le> unat n
    \<and> table_rows s' + (unat n - unat left) = table_rows s
    \<and> table_rows s - table_rows s' \<le> unat n
    \<and> subseq (storage s') (storage s) \<and> suffix (gc_store s') (gc_store s)
    \<and> subseq (codes s') (codes s) \<and> suffix (gc_code s') (gc_code s)
    \<and> s' = s\<lparr>storage := storage s', gc_store := gc_store s',
              codes := codes s', gc_code := gc_code s'\<rparr>
    \<and> (left = 0 \<or> (gc_store s' = [] \<and> gc_code s' = []))
    \<and> gc s n = (s', gc_store s' = [] \<and> gc_code s' = []))"
proof -
  have w: "table_rows (snd (gc_run s n)) + (unat n - unat (fst (gc_run s n))) = table_rows s"
    by (rule gc_run_work)
  then have b: "table_rows s - table_rows (snd (gc_run s n)) \<le> unat n"
    by linarith
  have g: "gc s n = (snd (gc_run s n), gc_store (snd (gc_run s n)) = [] \<and> gc_code (snd (gc_run s n)) = [])"
    by (simp add: gc_def Let_def)
  show ?thesis
    unfolding Let_def
    using gc_run_le[of s n] w b gc_run_subseq[of s n] gc_run_frame[of s n] gc_run_exit[of s n] g
    by blast
qed

lemmas gc_eval =
  gc_def gc_run_def Let_def gc_store_loop.simps gc_code_loop.simps drain_scope.simps
  collectable_def by_code_id_def in_scope_def demo_gc_state_def demo_state_def demo_row_B_def
  table_rows_def

lemma pending_work_demo: "pending_work demo_gc_state = 5"
  by (simp add: pending_work_def pending_storage_work_def pending_code_work_def
      queued_scope_def queued_code_def demo_gc_state_def demo_state_def)

theorem gc_bounded_budget_witness:
  "fst (gc_run demo_gc_state 3) = 0
   \<and> table_rows demo_gc_state = 6
   \<and> table_rows (snd (gc_run demo_gc_state 3)) = 3
   \<and> storage (snd (gc_run demo_gc_state 3)) = [(1, \<lparr>s_id = 0, s_key = 1, s_value = 9\<rparr>)]
   \<and> gc_store (snd (gc_run demo_gc_state 3)) = []
   \<and> gc_code (snd (gc_run demo_gc_state 3)) = [\<lparr>gc_id = 0, gc_code_id = 0\<rparr>]
   \<and> snd (gc demo_gc_state 3) = False"
  using gc_bounded_budget [of demo_gc_state 3]
  by (simp add: gc_eval)

subsection \<open>Draining\<close>

lemma set_tbl_erase: "set (tbl_erase P xs) \<subseteq> set xs"
  by (induction xs) auto

lemma distinct_map_tbl_erase: "distinct (map f xs) \<Longrightarrow> distinct (map f (tbl_erase P xs))"
proof (induction xs)
  case Nil
  then show ?case by simp
next
  case (Cons x xs)
  have "f x \<notin> f ` set (tbl_erase P xs)" using Cons.prems set_tbl_erase[of P xs] by auto
  then show ?case using Cons by simp
qed

lemma queued_code_erase_exact:
  assumes "distinct (map c_id xs)" and "find (by_code_id k) xs = Some c" and "c_ref_count c = 0"
  shows "length (filter (\<lambda>x. c_ref_count x = 0 \<and> c_id x \<in> insert k B) xs) =
         Suc (length (filter (\<lambda>x. c_ref_count x = 0 \<and> c_id x \<in> B) (tbl_erase (by_code_id k) xs)))"
  using assms(1,2)
proof (induction xs)
  case Nil
  then show ?case by simp
next
  case (Cons x xs)
  show ?case
  proof (cases "c_id x = k")
    case True
    then have px: "by_code_id k x" by (simp add: by_code_id_def)
    then have cx: "c = x" using Cons.prems by simp
    have "\<forall>y \<in> set xs. c_id y \<noteq> k" using Cons.prems(1) True by (auto simp: image_iff)
    then have "filter (\<lambda>x. c_ref_count x = 0 \<and> c_id x \<in> insert k B) xs
             = filter (\<lambda>x. c_ref_count x = 0 \<and> c_id x \<in> B) xs"
      by (intro filter_cong) auto
    then show ?thesis using True px cx assms(3) by simp
  next
    case False
    then have nk: "\<not> by_code_id k x" by (simp add: by_code_id_def)
    have f: "find (by_code_id k) xs = Some c" using Cons.prems(2) nk by simp
    have d: "distinct (map c_id xs)" using Cons.prems(1) by simp
    show ?thesis using Cons.IH[OF d f] nk False by simp
  qed
qed

lemma queued_code_skip_exact:
  assumes "distinct (map c_id xs)"
    and "\<not> (case find (by_code_id k) xs of None \<Rightarrow> False | Some c \<Rightarrow> c_ref_count c = 0)"
  shows "filter (\<lambda>x. c_ref_count x = 0 \<and> c_id x \<in> insert k B) xs =
         filter (\<lambda>x. c_ref_count x = 0 \<and> c_id x \<in> B) xs"
proof -
  have "\<forall>y \<in> set xs. c_id y = k \<longrightarrow> c_ref_count y \<noteq> 0"
    using assms
  proof (induction xs)
    case Nil
    then show ?case by simp
  next
    case (Cons x xs)
    show ?case
    proof (cases "c_id x = k")
      case True
      then have px: "by_code_id k x" by (simp add: by_code_id_def)
      then have "c_ref_count x \<noteq> 0" using Cons.prems(2) by simp
      moreover have "\<forall>y \<in> set xs. c_id y \<noteq> k" using Cons.prems(1) True by (auto simp: image_iff)
      ultimately show ?thesis by auto
    next
      case False
      then have nk: "\<not> by_code_id k x" by (simp add: by_code_id_def)
      have "\<forall>y\<in>set xs. c_id y = k \<longrightarrow> c_ref_count y \<noteq> 0"
        using Cons.IH Cons.prems nk by simp
      then show ?thesis using False by simp
    qed
  qed
  then show ?thesis by (intro filter_cong) auto
qed

lemma pending_code_work_collect_exact:
  assumes "gc_code s = j # rest" and "collectable s j" and "distinct (map c_id (codes s))"
  shows "pending_code_work
           (s\<lparr>codes := tbl_erase (by_code_id (gc_code_id j)) (codes s), gc_code := rest\<rparr>) + 2
         = pending_code_work s"
proof -
  obtain c where f: "find (by_code_id (gc_code_id j)) (codes s) = Some c"
    and z: "c_ref_count c = 0"
    using collectable_row[OF assms(2)] by blast
  show ?thesis
    using queued_code_erase_exact[OF assms(3) f z, of "gc_code_id ` set rest"] assms(1)
    by (simp add: pending_code_work_def queued_code_def[abs_def])
qed

lemma pending_code_work_skip_exact:
  assumes "gc_code s = j # rest" and "\<not> collectable s j" and "distinct (map c_id (codes s))"
  shows "pending_code_work (s\<lparr>gc_code := rest\<rparr>) + 1 = pending_code_work s"
  using queued_code_skip_exact[OF assms(3), of "gc_code_id j" "gc_code_id ` set rest"] assms(1,2)
  by (simp add: pending_code_work_def queued_code_def[abs_def] collectable_def)

lemma gc_code_loop_exact:
  "distinct (map c_id (codes s)) \<Longrightarrow> pending_code_work s \<le> unat m \<Longrightarrow>
   unat (fst (gc_code_loop m s)) = unat m - pending_code_work s"
proof (induction m s rule: gc_code_loop_induct)
  case (stopped m s)
  then have "gc_code s = []"
    by (auto simp: pending_code_work_def unat_eq_zero)
  moreover have "gc_code_loop m s = (m, s)" using stopped(1) by (rule gc_code_loop_stop)
  ultimately show ?case by (simp add: pending_code_work_def queued_code_def)
next
  case (broke m s j rest)
  have "2 \<le> pending_code_work s"
    using pending_code_work_collect[OF broke(2,3)] by linarith
  moreover have "unat m = 1"
    using broke(1,4) unat_minus_one[of m] unat_pos_u32[of m] by simp
  ultimately show ?case using broke.prems by linarith
next
  case (collect m s j rest)
  let ?s2 = "s\<lparr>codes := tbl_erase (by_code_id (gc_code_id j)) (codes s), gc_code := rest\<rparr>"
  let ?r = "gc_code_loop (m - 1 - 1) ?s2"
  have eq: "gc_code_loop m s = ?r" using collect(1-4) by (rule gc_code_loop_collect_next)
  have p: "pending_code_work ?s2 + 2 = pending_code_work s"
    using collect(2,3) collect.prems(1) by (rule pending_code_work_collect_exact)
  have m2: "unat (m - 1 - 1) = unat m - 2" and pos: "2 \<le> unat m"
    using unat_minus_two[OF collect(1,4)] by blast+
  have d: "distinct (map c_id (codes ?s2))"
    using collect.prems(1) by (simp add: distinct_map_tbl_erase)
  have "pending_code_work ?s2 \<le> unat (m - 1 - 1)" using p m2 collect.prems by linarith
  then have "unat (fst ?r) = unat (m - 1 - 1) - pending_code_work ?s2"
    using collect.IH d by blast
  then show ?case unfolding eq using p m2 pos by linarith
next
  case (skip m s j rest)
  let ?s2 = "s\<lparr>gc_code := rest\<rparr>"
  let ?r = "gc_code_loop (m - 1) ?s2"
  have eq: "gc_code_loop m s = ?r" using skip(1-3) by (rule gc_code_loop_skip)
  have p: "pending_code_work ?s2 + 1 = pending_code_work s"
    using skip(2,3) skip.prems(1) by (rule pending_code_work_skip_exact)
  have m1: "unat (m - 1) = unat m - 1" and pos: "1 \<le> unat m"
    using skip(1) unat_pos_u32[of m] by (simp_all add: unat_minus_one)
  have d: "distinct (map c_id (codes ?s2))" using skip.prems(1) by simp
  have "pending_code_work ?s2 \<le> unat (m - 1)" using p m1 skip.prems by linarith
  then have "unat (fst ?r) = unat (m - 1) - pending_code_work ?s2"
    using skip.IH d by blast
  then show ?case unfolding eq using p m1 pos by linarith
qed

lemma gc_run_exact:
  assumes "pending_work s \<le> unat n" and "distinct (map c_id (codes s))"
  shows "unat (fst (gc_run s n)) = unat n - pending_work s"
proof -
  let ?r1 = "gc_store_loop n s"
  have ps: "pending_storage_work s \<le> unat n" using assms by (simp add: pending_work_def)
  have e2: "unat (fst ?r1) = unat n - pending_storage_work s"
    using gc_store_loop_enough[OF ps] by blast
  have pc: "pending_code_work (snd ?r1) = pending_code_work s"
    by (simp add: pending_code_work_def gc_store_loop_codes)
  have d: "distinct (map c_id (codes (snd ?r1)))" using assms(2) by (simp add: gc_store_loop_codes)
  have "pending_code_work (snd ?r1) \<le> unat (fst ?r1)"
    using assms pc e2 by (simp add: pending_work_def)
  then have "unat (fst (gc_code_loop (fst ?r1) (snd ?r1))) = unat (fst ?r1) - pending_code_work (snd ?r1)"
    using d gc_code_loop_exact by blast
  then show ?thesis unfolding gc_run_fst using e2 pc by (simp add: pending_work_def)
qed

lemma gc_run_enough:
  assumes "pending_work s \<le> unat n"
  shows "gc_store (snd (gc_run s n)) = []" "gc_code (snd (gc_run s n)) = []"
    "storage (snd (gc_run s n)) = filter (\<lambda>x. \<not> queued_scope (gc_store s) x) (storage s)"
    "unat n - pending_work s \<le> unat (fst (gc_run s n))"
proof -
  let ?r1 = "gc_store_loop n s"
  let ?r2 = "gc_code_loop (fst ?r1) (snd ?r1)"
  have ps: "pending_storage_work s \<le> unat n" using assms by (simp add: pending_work_def)
  have e1: "gc_store (snd ?r1) = []"
    and e2: "unat (fst ?r1) = unat n - pending_storage_work s"
    and e3: "storage (snd ?r1) = filter (\<lambda>x. \<not> queued_scope (gc_store s) x) (storage s)"
    using gc_store_loop_enough[OF ps] by blast+
  have pc: "pending_code_work (snd ?r1) = pending_code_work s"
    by (simp add: pending_code_work_def gc_store_loop_codes)
  then have "pending_code_work (snd ?r1) \<le> unat (fst ?r1)"
    using assms e2 by (simp add: pending_work_def)
  then have c1: "gc_code (snd ?r2) = []"
    and c2: "unat (fst ?r1) - pending_code_work (snd ?r1) \<le> unat (fst ?r2)"
    using gc_code_loop_enough by blast+
  show "gc_store (snd (gc_run s n)) = []"
    unfolding gc_run_snd using e1 by (simp add: gc_code_loop_storage)
  show "gc_code (snd (gc_run s n)) = []"
    unfolding gc_run_snd using c1 .
  show "storage (snd (gc_run s n)) = filter (\<lambda>x. \<not> queued_scope (gc_store s) x) (storage s)"
    unfolding gc_run_snd using e3 by (simp add: gc_code_loop_storage)
  show "unat n - pending_work s \<le> unat (fst (gc_run s n))"
    unfolding gc_run_fst using c2 e2 pc by (simp add: pending_work_def)
qed

lemma gc_drained: "gc_store s = [] \<Longrightarrow> gc_code s = [] \<Longrightarrow> gc s k = (s, True)"
  by (simp add: gc_def gc_run_def Let_def gc_store_loop_stop gc_code_loop_stop)

lemma gc_zero: "gc s 0 = (s, gc_store s = [] \<and> gc_code s = [])"
  by (simp add: gc_def gc_run_def Let_def gc_store_loop_stop gc_code_loop_stop)

text \<open>
  C4. A call \<^verbatim>\<open>gc(n)\<close> with \<open>n\<close> at least the pending work (one unit per queue entry, per
  slot of a queued scope and per queued code object with reference count zero) empties both
  queues and returns true, deleting every slot of the queued scopes; the work it does is at
  most the pending work, and exactly the pending work when the code table's primary keys are
  distinct. A further call returns true and changes nothing, as does any call when both
  queues are empty. \<^verbatim>\<open>gc(0)\<close> changes nothing and returns whether both queues are empty.
\<close>

theorem gc_drains_and_is_idempotent:
  "(pending_work s \<le> unat n \<longrightarrow>
      (let s' = fst (gc s n) in
         snd (gc s n)
       \<and> gc_store s' = [] \<and> gc_code s' = []
       \<and> storage s' = filter (\<lambda>x. \<not> queued_scope (gc_store s) x) (storage s)
       \<and> table_rows s - table_rows s' \<le> pending_work s
       \<and> (distinct (map c_id (codes s)) \<longrightarrow> table_rows s - table_rows s' = pending_work s)
       \<and> (\<forall>k. gc s' k = (s', True))))
   \<and> (gc_store s = [] \<and> gc_code s = [] \<longrightarrow> gc s k = (s, True))
   \<and> gc s 0 = (s, gc_store s = [] \<and> gc_code s = [])"
proof -
  have 1: "pending_work s \<le> unat n \<longrightarrow>
      (let s' = fst (gc s n) in
         snd (gc s n)
       \<and> gc_store s' = [] \<and> gc_code s' = []
       \<and> storage s' = filter (\<lambda>x. \<not> queued_scope (gc_store s) x) (storage s)
       \<and> table_rows s - table_rows s' \<le> pending_work s
       \<and> (distinct (map c_id (codes s)) \<longrightarrow> table_rows s - table_rows s' = pending_work s)
       \<and> (\<forall>k. gc s' k = (s', True)))"
  proof
    assume p: "pending_work s \<le> unat n"
    let ?s' = "snd (gc_run s n)"
    have f: "fst (gc s n) = ?s'" by (simp add: gc_def Let_def)
    have a: "gc_store ?s' = []" and b: "gc_code ?s' = []"
      and c: "storage ?s' = filter (\<lambda>x. \<not> queued_scope (gc_store s) x) (storage s)"
      and d: "unat n - pending_work s \<le> unat (fst (gc_run s n))"
      using gc_run_enough[OF p] by blast+
    have r: "snd (gc s n)" using a b by (simp add: gc_def Let_def)
    have w: "table_rows ?s' + (unat n - unat (fst (gc_run s n))) = table_rows s"
      by (rule gc_run_work)
    have e: "table_rows s - table_rows ?s' \<le> pending_work s"
      using w d p gc_run_le[of s n] by linarith
    have x: "distinct (map c_id (codes s)) \<longrightarrow> table_rows s - table_rows ?s' = pending_work s"
    proof
      assume "distinct (map c_id (codes s))"
      then have "unat (fst (gc_run s n)) = unat n - pending_work s"
        using p gc_run_exact by blast
      then show "table_rows s - table_rows ?s' = pending_work s"
        using w p by linarith
    qed
    have i: "\<forall>k. gc ?s' k = (?s', True)" using a b by (simp add: gc_drained)
    show "let s' = fst (gc s n) in
         snd (gc s n)
       \<and> gc_store s' = [] \<and> gc_code s' = []
       \<and> storage s' = filter (\<lambda>x. \<not> queued_scope (gc_store s) x) (storage s)
       \<and> table_rows s - table_rows s' \<le> pending_work s
       \<and> (distinct (map c_id (codes s)) \<longrightarrow> table_rows s - table_rows s' = pending_work s)
       \<and> (\<forall>k. gc s' k = (s', True))"
      unfolding Let_def f using r a b c e x i by blast
  qed
  show ?thesis using 1 gc_drained[of s k] gc_zero[of s] by blast
qed

theorem gc_drains_and_is_idempotent_witness:
  "pending_work demo_gc_state \<le> unat (5 :: u32)
   \<and> distinct (map c_id (codes demo_gc_state))
   \<and> snd (gc demo_gc_state 5)
   \<and> gc_store (fst (gc demo_gc_state 5)) = []
   \<and> gc_code (fst (gc demo_gc_state 5)) = []
   \<and> table_rows demo_gc_state - table_rows (fst (gc demo_gc_state 5)) = 5
   \<and> gc (fst (gc demo_gc_state 5)) 7 = (fst (gc demo_gc_state 5), True)
   \<and> storage (fst (gc demo_gc_state 5)) = [(1, \<lparr>s_id = 0, s_key = 1, s_value = 9\<rparr>)]
   \<and> codes (fst (gc demo_gc_state 5)) = []
   \<and> gc demo_gc_state 0 = (demo_gc_state, False)"
proof -
  have h1: "pending_work demo_gc_state \<le> unat (5 :: u32)"
    by (simp add: pending_work_demo)
  have h2: "distinct (map c_id (codes demo_gc_state))"
    by (simp add: demo_gc_state_def demo_state_def)
  have d: "snd (gc demo_gc_state 5)
      \<and> gc_store (fst (gc demo_gc_state 5)) = []
      \<and> gc_code (fst (gc demo_gc_state 5)) = []
      \<and> table_rows demo_gc_state - table_rows (fst (gc demo_gc_state 5)) = 5
      \<and> gc (fst (gc demo_gc_state 5)) 7 = (fst (gc demo_gc_state 5), True)"
    using h1 h2 gc_drains_and_is_idempotent [of demo_gc_state 5 7]
    by (simp add: Let_def pending_work_demo)
  have e: "storage (fst (gc demo_gc_state 5)) = [(1, \<lparr>s_id = 0, s_key = 1, s_value = 9\<rparr>)]
      \<and> codes (fst (gc demo_gc_state 5)) = []"
    by (simp add: gc_eval)
  have z: "gc demo_gc_state 0 = (demo_gc_state, False)"
    using gc_drains_and_is_idempotent [of demo_gc_state 0 0]
    by (simp add: demo_gc_state_def)
  show ?thesis
    using h1 h2 d e z by blast
qed

section \<open>Adopting code\<close>

lemma find_append_tbl:
  "find P (xs @ ys) = (case find P xs of None \<Rightarrow> find P ys | Some x \<Rightarrow> Some x)"
  by (induction xs) auto

lemma find_tbl_modify_key:
  assumes "\<And>x. k (f x) = k x"
  shows "find (\<lambda>x. k x = v) (tbl_modify (\<lambda>x. k x = w) f xs) =
         map_option (\<lambda>x. if v = w then f x else x) (find (\<lambda>x. k x = v) xs)"
  by (induction xs) (auto simp: assms option.map_ident)

lemma find_code_tbl_modify:
  assumes "\<And>x. c_code_hash (f x) = c_code_hash x"
  shows "find (by_codehash h) (tbl_modify (by_codehash h0) f xs) =
         map_option (\<lambda>x. if h = h0 then f x else x) (find (by_codehash h) xs)"
  using find_tbl_modify_key[of c_code_hash f h h0 xs] assms
  by (simp add: by_codehash_def[abs_def])

lemma find_account_tbl_modify:
  assumes "\<And>x. a_eth_address (f x) = a_eth_address x"
  shows "find (by_address a) (tbl_modify (by_address b) f xs) =
         map_option (\<lambda>x. if a = b then f x else x) (find (by_address a) xs)"
  using find_tbl_modify_key[of a_eth_address f a b xs] assms
  by (simp add: by_address_def[abs_def])

lemma tbl_erase_append_new:
  "find P xs = None \<Longrightarrow> P y \<Longrightarrow> tbl_erase P (xs @ [y]) = xs"
  by (induction xs) (auto split: if_splits)

lemma map_tbl_modify: "(\<And>x. g (f x) = g x) \<Longrightarrow> map g (tbl_modify P f xs) = map g xs"
  by (induction xs) auto

lemma inc_ref_count_simps [simp]:
  "c_code_hash (inc_ref_count c) = c_code_hash c"
  "c_code (inc_ref_count c) = c_code c"
  "c_id (inc_ref_count c) = c_id c"
  "c_ref_count (inc_ref_count c) = c_ref_count c + 1"
  by (simp_all add: inc_ref_count_def)

lemma update_account_code_frame:
  "storage (update_account_code s address incarnation h code) = storage s"
  "gc_store (update_account_code s address incarnation h code) = gc_store s"
  "gc_code (update_account_code s address incarnation h code) = gc_code s"
  "addr2code (update_account_code s address incarnation h code) = addr2code s"
  "addr2id (update_account_code s address incarnation h code) = addr2id s"
  by (simp_all add: update_account_code_def Let_def find_account_def split: option.splits)

lemma update_account_code_codes:
  "codes (update_account_code s address incarnation h code) =
     (case find_code s h of
        None \<Rightarrow> codes s @ [\<lparr>c_id = codes_next s, c_ref_count = 1, c_code = code, c_code_hash = h\<rparr>]
      | Some c \<Rightarrow> tbl_modify (by_codehash h) inc_ref_count (codes s))"
  by (simp add: update_account_code_def Let_def find_account_def split: option.splits)

lemma update_account_code_accounts:
  "accounts (update_account_code s address incarnation h code) =
     (case find_account s address of
        None \<Rightarrow> accounts s @ [\<lparr>a_id = accounts_next s, a_eth_address = address, a_nonce = 0,
                                a_balance = 0, a_code_hash = Some h\<rparr>]
      | Some r \<Rightarrow> tbl_modify (by_address address) (\<lambda>row. row\<lparr>a_code_hash := Some h\<rparr>) (accounts s))"
  by (auto simp: update_account_code_def Let_def find_account_def split: option.splits)

lemma update_account_code_find_code:
  "find_code (update_account_code s address incarnation h code) h' =
     (if h' = h
      then (case find_code s h of
              None \<Rightarrow> Some \<lparr>c_id = codes_next s, c_ref_count = 1, c_code = code, c_code_hash = h\<rparr>
            | Some c \<Rightarrow> Some (inc_ref_count c))
      else find_code s h')"
proof (cases "find_code s h")
  case None
  then show ?thesis
    by (simp add: find_code_def update_account_code_codes find_append_tbl by_codehash_def
        split: option.splits)
next
  case (Some c)
  then show ?thesis
    by (simp add: find_code_def update_account_code_codes find_code_tbl_modify option.map_ident)
qed

lemma update_account_code_find_account:
  "find_account (update_account_code s address incarnation h code) a =
     (if a = address
      then (case find_account s address of
              None \<Rightarrow> Some \<lparr>a_id = accounts_next s, a_eth_address = address, a_nonce = 0,
                             a_balance = 0, a_code_hash = Some h\<rparr>
            | Some r \<Rightarrow> Some (r\<lparr>a_code_hash := Some h\<rparr>))
      else find_account s a)"
proof (cases "find_account s address")
  case None
  then show ?thesis
    by (simp add: find_account_def update_account_code_accounts find_append_tbl by_address_def
        split: option.splits)
next
  case (Some r)
  then show ?thesis
    by (simp add: find_account_def update_account_code_accounts find_account_tbl_modify option.map_ident)
qed

lemma find_None_filter_length: "find P xs = None \<Longrightarrow> length (filter P xs) = 0"
  by (induction xs) (auto split: if_splits)

lemma filter_tbl_modify_length:
  "(\<And>x. P (f x) = P x) \<Longrightarrow> length (filter P (tbl_modify Q f xs)) = length (filter P xs)"
  by (induction xs) auto

lemma read_code_uncached:
  "addr2code s h = None \<Longrightarrow>
   fst (read_code s h) = (case find_code s h of None \<Rightarrow> [] | Some c \<Rightarrow> c_code c)"
  by (simp add: read_code_def split: option.splits)

text \<open>
  C6. \<^verbatim>\<open>update_account_code\<close> is content-addressed: with no code object for the hash it
  appends one with reference count 1 holding the given bytes; with one present it only
  increments that object's reference count, and no stored bytes, hash or id changes. In
  every case the account's code hash is set to the hash, the record being created with
  nonce 0 when the address had none. So after two calls with the same hash, starting with
  no object for it, there is exactly one object for the hash, with reference count 2 and
  the bytes of the first call, both accounts carry the hash, and \<^verbatim>\<open>read_code\<close> (on a
  cache that has no entry for the hash) gives those bytes, whichever account asks.
\<close>

theorem update_account_code_dedup:
  "(let s' = update_account_code s address incarnation h code in
      (find_code s h = None \<longrightarrow>
         codes s' = codes s @ [\<lparr>c_id = codes_next s, c_ref_count = 1, c_code = code, c_code_hash = h\<rparr>])
    \<and> (\<forall>c. find_code s h = Some c \<longrightarrow>
           codes s' = tbl_modify (by_codehash h) inc_ref_count (codes s)
         \<and> find_code s' h = Some (c\<lparr>c_ref_count := c_ref_count c + 1\<rparr>)
         \<and> map c_code (codes s') = map c_code (codes s)
         \<and> map c_code_hash (codes s') = map c_code_hash (codes s)
         \<and> map c_id (codes s') = map c_id (codes s))
    \<and> (\<exists>r. find_account s' address = Some r \<and> a_code_hash r = Some h)
    \<and> (find_account s address = None \<longrightarrow>
         accounts s' = accounts s @ [\<lparr>a_id = accounts_next s, a_eth_address = address, a_nonce = 0,
                                      a_balance = 0, a_code_hash = Some h\<rparr>])
    \<and> (\<forall>r. find_account s address = Some r \<longrightarrow>
           accounts s' = tbl_modify (by_address address) (\<lambda>row. row\<lparr>a_code_hash := Some h\<rparr>) (accounts s)
         \<and> find_account s' address = Some (r\<lparr>a_code_hash := Some h\<rparr>))
    \<and> storage s' = storage s \<and> gc_store s' = gc_store s \<and> gc_code s' = gc_code s
    \<and> (find_code s h = None \<longrightarrow>
         (let s'' = update_account_code s' address2 incarnation2 h code2 in
            find_code s'' h = Some \<lparr>c_id = codes_next s, c_ref_count = 2, c_code = code, c_code_hash = h\<rparr>
          \<and> length (filter (by_codehash h) (codes s'')) = 1
          \<and> (\<exists>r. find_account s'' address = Some r \<and> a_code_hash r = Some h)
          \<and> (\<exists>r. find_account s'' address2 = Some r \<and> a_code_hash r = Some h)
          \<and> (\<forall>ra rb ha hb. find_account s'' address = Some ra \<and> a_code_hash ra = Some ha
                \<and> find_account s'' address2 = Some rb \<and> a_code_hash rb = Some hb \<longrightarrow>
                fst (read_code s'' ha) = fst (read_code s'' hb))
          \<and> (addr2code s h = None \<longrightarrow> fst (read_code s'' h) = code))))"
proof -
  let ?s' = "update_account_code s address incarnation h code"
  let ?s'' = "update_account_code ?s' address2 incarnation2 h code2"
  let ?new = "\<lparr>c_id = codes_next s, c_ref_count = 1, c_code = code, c_code_hash = h\<rparr>"
  have 1: "find_code s h = None \<longrightarrow> codes ?s' = codes s @ [?new]"
    by (simp add: update_account_code_codes)
  have 2: "\<forall>c. find_code s h = Some c \<longrightarrow>
           codes ?s' = tbl_modify (by_codehash h) inc_ref_count (codes s)
         \<and> find_code ?s' h = Some (c\<lparr>c_ref_count := c_ref_count c + 1\<rparr>)
         \<and> map c_code (codes ?s') = map c_code (codes s)
         \<and> map c_code_hash (codes ?s') = map c_code_hash (codes s)
         \<and> map c_id (codes ?s') = map c_id (codes s)"
    by (simp add: update_account_code_codes update_account_code_find_code map_tbl_modify
        inc_ref_count_def)
  have 3: "\<exists>r. find_account ?s' address = Some r \<and> a_code_hash r = Some h"
    by (simp add: update_account_code_find_account split: option.splits)
  have 4: "find_account s address = None \<longrightarrow>
         accounts ?s' = accounts s @ [\<lparr>a_id = accounts_next s, a_eth_address = address, a_nonce = 0,
                                      a_balance = 0, a_code_hash = Some h\<rparr>]"
    by (simp add: update_account_code_accounts)
  have 5: "\<forall>r. find_account s address = Some r \<longrightarrow>
           accounts ?s' = tbl_modify (by_address address) (\<lambda>row. row\<lparr>a_code_hash := Some h\<rparr>) (accounts s)
         \<and> find_account ?s' address = Some (r\<lparr>a_code_hash := Some h\<rparr>)"
    by (simp add: update_account_code_accounts update_account_code_find_account)
  have 6: "storage ?s' = storage s \<and> gc_store ?s' = gc_store s \<and> gc_code ?s' = gc_code s"
    by (simp add: update_account_code_frame)
  have 7: "find_code s h = None \<longrightarrow>
            find_code ?s'' h = Some \<lparr>c_id = codes_next s, c_ref_count = 2, c_code = code, c_code_hash = h\<rparr>
          \<and> length (filter (by_codehash h) (codes ?s'')) = 1
          \<and> (\<exists>r. find_account ?s'' address = Some r \<and> a_code_hash r = Some h)
          \<and> (\<exists>r. find_account ?s'' address2 = Some r \<and> a_code_hash r = Some h)
          \<and> (\<forall>ra rb ha hb. find_account ?s'' address = Some ra \<and> a_code_hash ra = Some ha
                \<and> find_account ?s'' address2 = Some rb \<and> a_code_hash rb = Some hb \<longrightarrow>
                fst (read_code ?s'' ha) = fst (read_code ?s'' hb))
          \<and> (addr2code s h = None \<longrightarrow> fst (read_code ?s'' h) = code)"
  proof
    assume n: "find_code s h = None"
    have f1: "find_code ?s' h = Some ?new"
      using n by (simp add: update_account_code_find_code)
    have f2: "find_code ?s'' h = Some \<lparr>c_id = codes_next s, c_ref_count = 2, c_code = code, c_code_hash = h\<rparr>"
      using f1 by (simp add: update_account_code_find_code inc_ref_count_def)
    have c1: "codes ?s' = codes s @ [?new]" using n 1 by simp
    have "length (filter (by_codehash h) (codes ?s')) = 1"
      using n by (simp add: c1 find_code_def find_None_filter_length by_codehash_def)
    moreover have "codes ?s'' = tbl_modify (by_codehash h) inc_ref_count (codes ?s')"
      using f1 by (simp add: update_account_code_codes)
    ultimately have l: "length (filter (by_codehash h) (codes ?s'')) = 1"
      by (simp add: filter_tbl_modify_length by_codehash_def)
    have a: "\<exists>r. find_account ?s'' address = Some r \<and> a_code_hash r = Some h"
      using 3 by (auto simp: update_account_code_find_account[of ?s'] split: option.splits)
    have b: "\<exists>r. find_account ?s'' address2 = Some r \<and> a_code_hash r = Some h"
      by (simp add: update_account_code_find_account[of ?s'] split: option.splits)
    have r: "addr2code s h = None \<longrightarrow> fst (read_code ?s'' h) = code"
      using f2 by (simp add: read_code_uncached update_account_code_frame)
    have both: "\<forall>ra rb ha hb. find_account ?s'' address = Some ra \<and> a_code_hash ra = Some ha
                \<and> find_account ?s'' address2 = Some rb \<and> a_code_hash rb = Some hb \<longrightarrow>
                fst (read_code ?s'' ha) = fst (read_code ?s'' hb)"
      using a b by auto
    show "find_code ?s'' h = Some \<lparr>c_id = codes_next s, c_ref_count = 2, c_code = code, c_code_hash = h\<rparr>
          \<and> length (filter (by_codehash h) (codes ?s'')) = 1
          \<and> (\<exists>r. find_account ?s'' address = Some r \<and> a_code_hash r = Some h)
          \<and> (\<exists>r. find_account ?s'' address2 = Some r \<and> a_code_hash r = Some h)
          \<and> (\<forall>ra rb ha hb. find_account ?s'' address = Some ra \<and> a_code_hash ra = Some ha
                \<and> find_account ?s'' address2 = Some rb \<and> a_code_hash rb = Some hb \<longrightarrow>
                fst (read_code ?s'' ha) = fst (read_code ?s'' hb))
          \<and> (addr2code s h = None \<longrightarrow> fst (read_code ?s'' h) = code)"
      using f2 l a b both r by blast
  qed
  show ?thesis unfolding Let_def using 1 2 3 4 5 6 7 by blast
qed

theorem update_account_code_dedup_witness:
  "find_code demo_state 0x22 = None
   \<and> find_account demo_state 0xC = None
   \<and> find_account demo_state 0xB = Some demo_row_B
   \<and> addr2code demo_state 0x22 = None
   \<and> (let s' = update_account_code demo_state 0xC 0 0x22 demo_code;
            s'' = update_account_code s' 0xB 0 0x22 [] in
          codes s' = codes demo_state @
                       [\<lparr>c_id = 1, c_ref_count = 1, c_code = demo_code, c_code_hash = 0x22\<rparr>]
        \<and> find_code s'' 0x22 =
            Some \<lparr>c_id = 1, c_ref_count = 2, c_code = demo_code, c_code_hash = 0x22\<rparr>
        \<and> length (filter (by_codehash 0x22) (codes s'')) = 1
        \<and> find_account s'' 0xC =
            Some \<lparr>a_id = 2, a_eth_address = 0xC, a_nonce = 0, a_balance = 0, a_code_hash = Some 0x22\<rparr>
        \<and> find_account s'' 0xB = Some (demo_row_B\<lparr>a_code_hash := Some 0x22\<rparr>)
        \<and> fst (read_code s'' 0x22) = demo_code)"
proof -
  have h1: "find_code demo_state 0x22 = None"
    by (simp add: find_code_def demo_state_def by_codehash_def)
  have h2: "find_account demo_state 0xC = None"
    by (simp add: find_account_def demo_state_def demo_row_A_def demo_row_B_def by_address_def)
  have h3: "find_account demo_state 0xB = Some demo_row_B"
    by (simp add: find_account_def demo_state_def demo_row_A_def demo_row_B_def by_address_def)
  have h4: "addr2code demo_state 0x22 = None"
    by (simp add: demo_state_def)
  have a: "find_account (update_account_code demo_state 0xC 0 0x22 demo_code) 0xB = Some demo_row_B"
    using h3 by (simp add: update_account_code_find_account)
  show ?thesis
    using h1 h2 h3 h4 update_account_code_dedup [where s = demo_state and address = "0xC" and incarnation = 0
            and h = "0x22" and code = demo_code and ?address2.0 = "0xB" and ?incarnation2.0 = 0
            and ?code2.0 = "[]"]
    by (simp add: Let_def update_account_code_find_account demo_state_def)
qed

section \<open>Lazily created accounts\<close>

lemma update_account_present_frame:
  "codes (update_account s address initial (Some cur)) = codes s"
  "gc_code (update_account s address initial (Some cur)) = gc_code s"
  "gc_store (update_account s address initial (Some cur)) = gc_store s"
  "storage (update_account s address initial (Some cur)) = storage s"
  by (simp_all add: update_account_def Let_def split: option.splits)

lemma update_account_present_accounts:
  "initial \<noteq> Some cur \<Longrightarrow>
   accounts (update_account s address initial (Some cur)) =
     (case find_account s address of
        None \<Rightarrow> accounts s @ [\<lparr>a_id = accounts_next s, a_eth_address = address,
                                a_nonce = acc_nonce cur, a_balance = acc_balance cur,
                                a_code_hash = stored_code_hash cur\<rparr>]
      | Some r \<Rightarrow> tbl_modify (by_address address)
                    (\<lambda>row. row\<lparr>a_nonce := acc_nonce cur, a_code_hash := stored_code_hash cur,
                                a_balance := acc_balance cur\<rparr>) (accounts s))"
  by (auto simp: update_account_def Let_def find_account_def split: option.splits)

lemma update_account_present_find_account:
  assumes "initial \<noteq> Some cur"
  shows "find_account (update_account s address initial (Some cur)) a =
     (if a = address
      then (case find_account s address of
              None \<Rightarrow> Some \<lparr>a_id = accounts_next s, a_eth_address = address,
                             a_nonce = acc_nonce cur, a_balance = acc_balance cur,
                             a_code_hash = stored_code_hash cur\<rparr>
            | Some r \<Rightarrow> Some (r\<lparr>a_nonce := acc_nonce cur, a_code_hash := stored_code_hash cur,
                                  a_balance := acc_balance cur\<rparr>))
      else find_account s a)"
proof (cases "find_account s address")
  case None
  then show ?thesis
    by (simp add: find_account_def update_account_present_accounts[OF assms] find_append_tbl
        by_address_def split: option.splits)
next
  case (Some r)
  then show ?thesis
    by (simp add: find_account_def update_account_present_accounts[OF assms]
        find_account_tbl_modify option.map_ident)
qed

lemma update_account_find_code:
  "find_code (update_account s address initial current) h =
     map_option (\<lambda>c. if current = None \<and> initial \<noteq> None
                         \<and> (\<exists>r. find_account s address = Some r \<and> a_code_hash r = Some h)
                      then dec_ref_count c else c)
       (find_code s h)"
proof (cases current)
  case (Some cur)
  then show ?thesis
    by (simp add: find_code_def update_account_present_frame option.map_ident)
next
  case None
  note cn = this
  show ?thesis
  proof (cases "initial = None")
    case True
    with cn show ?thesis by (simp add: update_account_def option.map_ident)
  next
    case False
    note i = this
    show ?thesis
    proof (cases "find_account s address")
      case None
      with cn i show ?thesis
        by (auto simp: update_account_def Let_def find_code_def option.map_ident)
    next
      case (Some r)
      have eq: "update_account s address initial None =
         delete_account (s\<lparr>stats := (stats s)\<lparr>stat_account_read := stat_account_read (stats s) + 1\<rparr>\<rparr>) address r"
        using Some i by (rule update_account_delete)
      show ?thesis
      proof (cases "a_code_hash r")
        case None
        with Some cn i show ?thesis
          by (simp add: eq delete_account_codes find_code_def option.map_ident)
      next
        case (Some h0)
        note rh = this
        show ?thesis
        proof (cases "find (by_codehash h0) (codes s)")
          case None
          then have "h = h0 \<Longrightarrow> find (by_codehash h) (codes s) = None" by simp
          with None rh \<open>find_account s address = Some r\<close> cn i show ?thesis
            by (cases "h = h0") (simp_all add: eq delete_account_codes find_code_def option.map_ident)
        next
          case (Some c0)
          with rh \<open>find_account s address = Some r\<close> cn i show ?thesis
            by (cases "h = h0")
               (simp_all add: eq delete_account_codes find_code_def find_code_tbl_modify option.map_ident)
        qed
      qed
    qed
  qed
qed

lemma update_storage_frame:
  "codes (update_storage s address incarnation location initial current) = codes s"
  "gc_code (update_storage s address incarnation location initial current) = gc_code s"
  "gc_store (update_storage s address incarnation location initial current) = gc_store s"
  "gc_store_next (update_storage s address incarnation location initial current) = gc_store_next s"
  "gc_code_next (update_storage s address incarnation location initial current) = gc_code_next s"
  "addr2id (update_storage s address incarnation location initial current) = addr2id s"
  "addr2code (update_storage s address incarnation location initial current) = addr2code s"
  by (simp_all add: update_storage_def Let_def split: option.splits prod.splits)

lemma update_storage_accounts:
  "accounts (update_storage s address incarnation location initial current) =
     (if current \<noteq> 0 \<and> find_account s address = None
      then accounts s @ [\<lparr>a_id = accounts_next s, a_eth_address = address, a_nonce = 0,
                           a_balance = 0, a_code_hash = Some kEmptyHash\<rparr>]
      else accounts s)"
  by (auto simp: update_storage_def Let_def is_zero_def split: option.splits prod.splits)

lemma lazy_delete_codes:
  assumes f1: "find_account s1 address = Some lazy" and p: "prev \<noteq> None"
    and h: "a_code_hash lazy = Some kEmptyHash"
  shows "case find_code s1 kEmptyHash of
           None \<Rightarrow> codes (update_account s1 address prev None) = codes s1
                  \<and> gc_code (update_account s1 address prev None) = gc_code s1
         | Some c \<Rightarrow>
             codes (update_account s1 address prev None) =
               tbl_modify (by_codehash kEmptyHash) dec_ref_count (codes s1)
           \<and> find_code (update_account s1 address prev None) kEmptyHash = Some (dec_ref_count c)
           \<and> gc_code (update_account s1 address prev None) =
               (if c_ref_count c \<le> 1
                then gc_code s1 @ [\<lparr>gc_id = gc_code_next s1, gc_code_id = c_id c\<rparr>]
                else gc_code s1)"
proof -
  let ?s2 = "update_account s1 address prev None"
  have d: "?s2 = delete_account
             (s1\<lparr>stats := (stats s1)\<lparr>stat_account_read := stat_account_read (stats s1) + 1\<rparr>\<rparr>)
             address lazy"
    using f1 p by (rule update_account_delete)
  show ?thesis
  proof (cases "find_code s1 kEmptyHash")
    case None
    then show ?thesis unfolding d using h by (simp add: delete_account_codes find_code_def)
  next
    case (Some c)
    have cs: "codes ?s2 = tbl_modify (by_codehash kEmptyHash) dec_ref_count (codes s1)"
      unfolding d using h Some by (simp add: delete_account_codes find_code_def)
    have fc: "find_code ?s2 kEmptyHash = Some (dec_ref_count c)"
      using Some by (simp add: find_code_def cs find_code_tbl_modify)
    have gq: "gc_code ?s2 =
               (if c_ref_count c \<le> 1
                then gc_code s1 @ [\<lparr>gc_id = gc_code_next s1, gc_code_id = c_id c\<rparr>]
                else gc_code s1)"
      unfolding d using h Some by (simp add: delete_account_codes find_code_def)
    show ?thesis using Some cs fc gq by simp
  qed
qed

text \<open>
  C9, as the code has it. An account record that \<^verbatim>\<open>update_storage\<close> creates (first nonzero
  write to an address without a record) has nonce 0 and stores the empty-code hash as a
  present code hash, whereas \<^verbatim>\<open>update_account\<close> stores an absent code hash for a snapshot
  with the empty-code hash. Deleting the lazily created account therefore takes the branch
  for a present code hash and looks the empty-code hash up in the code table. With no code
  object for it, the deletion falls into the ignore branch: the code table and the code
  queue stay as they were. With a code object for it, that object's reference count gets
  the guarded decrement and the object is queued when the count was at most one. In both
  cases the record is erased and its storage scope is queued.
\<close>

theorem lazy_account_keeps_empty_code_hash:
  "(find_account s address = None \<and> current \<noteq> 0 \<longrightarrow>
      (let s1 = update_storage s address incarnation location initial current;
           lazy = \<lparr>a_id = accounts_next s, a_eth_address = address, a_nonce = 0,
                    a_balance = 0, a_code_hash = Some kEmptyHash\<rparr> in
         accounts s1 = accounts s @ [lazy]
       \<and> find_account s1 address = Some lazy
       \<and> codes s1 = codes s \<and> gc_code s1 = gc_code s
       \<and> (prev \<noteq> None \<longrightarrow>
            (let s2 = update_account s1 address prev None in
               accounts s2 = accounts s
             \<and> gc_store s2 = gc_store s @ [\<lparr>g_id = gc_store_next s, g_storage_id = accounts_next s\<rparr>]
             \<and> (case find_code s kEmptyHash of
                   None \<Rightarrow> codes s2 = codes s \<and> gc_code s2 = gc_code s
                 | Some c \<Rightarrow>
                     codes s2 = tbl_modify (by_codehash kEmptyHash) dec_ref_count (codes s)
                   \<and> find_code s2 kEmptyHash = Some (dec_ref_count c)
                   \<and> gc_code s2 =
                       (if c_ref_count c \<le> 1
                        then gc_code s @ [\<lparr>gc_id = gc_code_next s, gc_code_id = c_id c\<rparr>]
                        else gc_code s))))))
   \<and> (acc_code_hash snapshot = kEmptyHash \<and> before \<noteq> Some snapshot \<longrightarrow>
        (\<exists>r. find_account (update_account t address2 before (Some snapshot)) address2 = Some r
              \<and> a_code_hash r = None))"
proof -
  let ?s1 = "update_storage s address incarnation location initial current"
  let ?lazy = "\<lparr>a_id = accounts_next s, a_eth_address = address, a_nonce = 0,
                    a_balance = 0, a_code_hash = Some kEmptyHash\<rparr>"
  let ?s2 = "update_account ?s1 address prev None"
  have fr: "codes ?s1 = codes s \<and> gc_code ?s1 = gc_code s"
    by (simp add: update_storage_frame)
  have A: "find_account s address = None \<and> current \<noteq> 0 \<longrightarrow>
         accounts ?s1 = accounts s @ [?lazy]
       \<and> find_account ?s1 address = Some ?lazy
       \<and> codes ?s1 = codes s \<and> gc_code ?s1 = gc_code s
       \<and> (prev \<noteq> None \<longrightarrow>
               accounts ?s2 = accounts s
             \<and> gc_store ?s2 = gc_store s @ [\<lparr>g_id = gc_store_next s, g_storage_id = accounts_next s\<rparr>]
             \<and> (case find_code s kEmptyHash of
                   None \<Rightarrow> codes ?s2 = codes s \<and> gc_code ?s2 = gc_code s
                 | Some c \<Rightarrow>
                     codes ?s2 = tbl_modify (by_codehash kEmptyHash) dec_ref_count (codes s)
                   \<and> find_code ?s2 kEmptyHash = Some (dec_ref_count c)
                   \<and> gc_code ?s2 =
                       (if c_ref_count c \<le> 1
                        then gc_code s @ [\<lparr>gc_id = gc_code_next s, gc_code_id = c_id c\<rparr>]
                        else gc_code s)))"
  proof
    assume h: "find_account s address = None \<and> current \<noteq> 0"
    have a1: "accounts ?s1 = accounts s @ [?lazy]"
      using h by (simp add: update_storage_accounts)
    have f1: "find_account ?s1 address = Some ?lazy"
      using h by (simp add: find_account_def a1 find_append_tbl by_address_def)
    have B: "prev \<noteq> None \<longrightarrow>
               accounts ?s2 = accounts s
             \<and> gc_store ?s2 = gc_store s @ [\<lparr>g_id = gc_store_next s, g_storage_id = accounts_next s\<rparr>]
             \<and> (case find_code s kEmptyHash of
                   None \<Rightarrow> codes ?s2 = codes s \<and> gc_code ?s2 = gc_code s
                 | Some c \<Rightarrow>
                     codes ?s2 = tbl_modify (by_codehash kEmptyHash) dec_ref_count (codes s)
                   \<and> find_code ?s2 kEmptyHash = Some (dec_ref_count c)
                   \<and> gc_code ?s2 =
                       (if c_ref_count c \<le> 1
                        then gc_code s @ [\<lparr>gc_id = gc_code_next s, gc_code_id = c_id c\<rparr>]
                        else gc_code s))"
    proof
      assume p: "prev \<noteq> None"
      have d: "?s2 = delete_account
                 (?s1\<lparr>stats := (stats ?s1)\<lparr>stat_account_read := stat_account_read (stats ?s1) + 1\<rparr>\<rparr>)
                 address ?lazy"
        using f1 p by (rule update_account_delete)
      have e: "tbl_erase (by_address address) (accounts s @ [?lazy]) = accounts s"
        using h by (intro tbl_erase_append_new) (simp_all add: find_account_def by_address_def)
      have x1: "accounts ?s2 = accounts s"
        unfolding d by (simp add: delete_account_fields a1 e)
      have x3: "gc_store ?s2 = gc_store s @ [\<lparr>g_id = gc_store_next s, g_storage_id = accounts_next s\<rparr>]"
        unfolding d by (simp add: delete_account_fields update_storage_frame)
      have fc: "find_code ?s1 kEmptyHash = find_code s kEmptyHash"
        by (simp add: find_code_def update_storage_frame)
      have x2: "case find_code s kEmptyHash of
                   None \<Rightarrow> codes ?s2 = codes s \<and> gc_code ?s2 = gc_code s
                 | Some c \<Rightarrow>
                     codes ?s2 = tbl_modify (by_codehash kEmptyHash) dec_ref_count (codes s)
                   \<and> find_code ?s2 kEmptyHash = Some (dec_ref_count c)
                   \<and> gc_code ?s2 =
                       (if c_ref_count c \<le> 1
                        then gc_code s @ [\<lparr>gc_id = gc_code_next s, gc_code_id = c_id c\<rparr>]
                        else gc_code s)"
        using lazy_delete_codes[OF f1 p, simplified fc]
        by (simp add: update_storage_frame split: option.splits)
      show "accounts ?s2 = accounts s
             \<and> gc_store ?s2 = gc_store s @ [\<lparr>g_id = gc_store_next s, g_storage_id = accounts_next s\<rparr>]
             \<and> (case find_code s kEmptyHash of
                   None \<Rightarrow> codes ?s2 = codes s \<and> gc_code ?s2 = gc_code s
                 | Some c \<Rightarrow>
                     codes ?s2 = tbl_modify (by_codehash kEmptyHash) dec_ref_count (codes s)
                   \<and> find_code ?s2 kEmptyHash = Some (dec_ref_count c)
                   \<and> gc_code ?s2 =
                       (if c_ref_count c \<le> 1
                        then gc_code s @ [\<lparr>gc_id = gc_code_next s, gc_code_id = c_id c\<rparr>]
                        else gc_code s))"
        using x1 x3 x2 by (intro conjI)
    qed
    show "accounts ?s1 = accounts s @ [?lazy]
       \<and> find_account ?s1 address = Some ?lazy
       \<and> codes ?s1 = codes s \<and> gc_code ?s1 = gc_code s
       \<and> (prev \<noteq> None \<longrightarrow>
               accounts ?s2 = accounts s
             \<and> gc_store ?s2 = gc_store s @ [\<lparr>g_id = gc_store_next s, g_storage_id = accounts_next s\<rparr>]
             \<and> (case find_code s kEmptyHash of
                   None \<Rightarrow> codes ?s2 = codes s \<and> gc_code ?s2 = gc_code s
                 | Some c \<Rightarrow>
                     codes ?s2 = tbl_modify (by_codehash kEmptyHash) dec_ref_count (codes s)
                   \<and> find_code ?s2 kEmptyHash = Some (dec_ref_count c)
                   \<and> gc_code ?s2 =
                       (if c_ref_count c \<le> 1
                        then gc_code s @ [\<lparr>gc_id = gc_code_next s, gc_code_id = c_id c\<rparr>]
                        else gc_code s)))"
      using a1 f1 fr B by (intro conjI) simp_all
  qed
  have C: "acc_code_hash snapshot = kEmptyHash \<and> before \<noteq> Some snapshot \<longrightarrow>
        (\<exists>r. find_account (update_account t address2 before (Some snapshot)) address2 = Some r
              \<and> a_code_hash r = None)"
    by (simp add: update_account_present_find_account stored_code_hash_def split: option.splits)
  show ?thesis unfolding Let_def using A C by (intro conjI)
qed

theorem lazy_account_keeps_empty_code_hash_witness:
  "find_account demo_state 0xC = None
   \<and> (5 :: bytes32) \<noteq> 0
   \<and> Some demo_account_A \<noteq> None
   \<and> find_code demo_state kEmptyHash = None
   \<and> find_account (update_storage demo_state 0xC 0 1 0 5) 0xC =
       Some \<lparr>a_id = 2, a_eth_address = 0xC, a_nonce = 0, a_balance = 0,
             a_code_hash = Some kEmptyHash\<rparr>
   \<and> accounts (update_account (update_storage demo_state 0xC 0 1 0 5) 0xC (Some demo_account_A) None)
       = accounts demo_state
   \<and> codes (update_account (update_storage demo_state 0xC 0 1 0 5) 0xC (Some demo_account_A) None)
       = codes demo_state
   \<and> gc_code (update_account (update_storage demo_state 0xC 0 1 0 5) 0xC (Some demo_account_A) None)
       = []
   \<and> gc_store (update_account (update_storage demo_state 0xC 0 1 0 5) 0xC (Some demo_account_A) None)
       = [\<lparr>g_id = 0, g_storage_id = 2\<rparr>]
   \<and> find_account demo_empty_hash_state 0xC = None
   \<and> find_code demo_empty_hash_state kEmptyHash =
       Some \<lparr>c_id = 1, c_ref_count = 1, c_code = [], c_code_hash = kEmptyHash\<rparr>
   \<and> find_code (update_account demo_lazy_state 0xC (Some demo_account_A) None) kEmptyHash =
       Some \<lparr>c_id = 1, c_ref_count = 0, c_code = [], c_code_hash = kEmptyHash\<rparr>
   \<and> gc_code (update_account demo_lazy_state 0xC (Some demo_account_A) None) =
       [\<lparr>gc_id = 0, gc_code_id = 1\<rparr>]
   \<and> acc_code_hash demo_plain_account = kEmptyHash
   \<and> None \<noteq> Some demo_plain_account
   \<and> (\<exists>r. find_account (update_account demo_state 0xD None (Some demo_plain_account)) 0xD = Some r
          \<and> a_code_hash r = None)"
proof -
  have h1: "find_account demo_state 0xC = None \<and> (5 :: bytes32) \<noteq> 0
      \<and> Some demo_account_A \<noteq> None \<and> find_code demo_state kEmptyHash = None"
    by (simp add: find_account_def find_code_def demo_state_def demo_row_A_def demo_row_B_def
        by_address_def by_codehash_def kEmptyHash_def)
  have h2: "acc_code_hash demo_plain_account = kEmptyHash \<and> None \<noteq> Some demo_plain_account"
    by (simp add: demo_plain_account_def)
  have n: "accounts_next demo_state = 2" "gc_store_next demo_state = 0"
    "gc_store demo_state = []" "gc_code demo_state = []"
    by (simp_all add: demo_state_def)
  have a: "find_account (update_storage demo_state 0xC 0 1 0 5) 0xC =
       Some \<lparr>a_id = 2, a_eth_address = 0xC, a_nonce = 0, a_balance = 0,
             a_code_hash = Some kEmptyHash\<rparr>
   \<and> accounts (update_account (update_storage demo_state 0xC 0 1 0 5) 0xC (Some demo_account_A) None)
       = accounts demo_state
   \<and> codes (update_account (update_storage demo_state 0xC 0 1 0 5) 0xC (Some demo_account_A) None)
       = codes demo_state
   \<and> gc_code (update_account (update_storage demo_state 0xC 0 1 0 5) 0xC (Some demo_account_A) None)
       = []
   \<and> gc_store (update_account (update_storage demo_state 0xC 0 1 0 5) 0xC (Some demo_account_A) None)
       = [\<lparr>g_id = 0, g_storage_id = 2\<rparr>]
   \<and> (\<exists>r. find_account (update_account demo_state 0xD None (Some demo_plain_account)) 0xD = Some r
          \<and> a_code_hash r = None)"
    using h1 h2
      lazy_account_keeps_empty_code_hash [where s = demo_state and address = "0xC"
        and current = 5 and incarnation = 0 and location = 1 and initial = 0
        and prev = "Some demo_account_A" and snapshot = demo_plain_account
        and before = None and t = demo_state and ?address2.0 = "0xD"]
    by (simp add: Let_def n)
  have h3: "find_account demo_empty_hash_state 0xC = None
      \<and> find_code demo_empty_hash_state kEmptyHash =
          Some \<lparr>c_id = 1, c_ref_count = 1, c_code = [], c_code_hash = kEmptyHash\<rparr>"
    by (simp add: demo_empty_hash_state_def update_account_code_def Let_def
        find_account_def find_code_def demo_state_def demo_row_A_def demo_row_B_def
        by_address_def by_codehash_def kEmptyHash_def)
  have m: "gc_code demo_empty_hash_state = []" "gc_code_next demo_empty_hash_state = 0"
    by (simp_all add: demo_empty_hash_state_def update_account_code_frame
        update_account_code_def Let_def find_account_def find_code_def demo_state_def
        demo_row_A_def demo_row_B_def by_address_def by_codehash_def kEmptyHash_def)
  have b: "find_code (update_account demo_lazy_state 0xC (Some demo_account_A) None) kEmptyHash =
       Some \<lparr>c_id = 1, c_ref_count = 0, c_code = [], c_code_hash = kEmptyHash\<rparr>
   \<and> gc_code (update_account demo_lazy_state 0xC (Some demo_account_A) None) =
       [\<lparr>gc_id = 0, gc_code_id = 1\<rparr>]"
    using h1 h3
      lazy_account_keeps_empty_code_hash [where s = demo_empty_hash_state and address = "0xC"
        and current = 5 and incarnation = 0 and location = 1 and initial = 0
        and prev = "Some demo_account_A"]
    by (simp add: Let_def m demo_lazy_state_def dec_ref_count_def)
  show ?thesis
    using h1 h2 h3 a b by blast
qed

text \<open>
  C9 as stated fails when the code table has an object for the empty-code hash, which
  \<^verbatim>\<open>update_account_code\<close> creates like any other: in \<open>demo_empty_hash_state\<close> the address
  \<open>0xD\<close> has been given the empty-code hash with no bytes. The account \<open>0xC\<close> that
  \<^verbatim>\<open>update_storage\<close> then creates stores that hash as present, and deleting it finds the
  object: its count drops from 1 to 0 and it is queued, so the ignore branch is not taken.
\<close>

theorem lazy_account_deletion_finds_code_counterexample:
  "find_account demo_empty_hash_state 0xC = None
   \<and> find_account demo_lazy_state 0xC =
       Some \<lparr>a_id = 3, a_eth_address = 0xC, a_nonce = 0, a_balance = 0,
             a_code_hash = Some kEmptyHash\<rparr>
   \<and> find_code demo_lazy_state kEmptyHash =
       Some \<lparr>c_id = 1, c_ref_count = 1, c_code = [], c_code_hash = kEmptyHash\<rparr>
   \<and> gc_code demo_lazy_state = []
   \<and> find_code (update_account demo_lazy_state 0xC (Some demo_account_A) None) kEmptyHash =
       Some \<lparr>c_id = 1, c_ref_count = 0, c_code = [], c_code_hash = kEmptyHash\<rparr>
   \<and> gc_code (update_account demo_lazy_state 0xC (Some demo_account_A) None) =
       [\<lparr>gc_id = 0, gc_code_id = 1\<rparr>]
   \<and> codes (update_account demo_lazy_state 0xC (Some demo_account_A) None) \<noteq> codes demo_lazy_state"
  by (simp add: demo_lazy_state_def demo_empty_hash_state_def update_account_code_def
      update_storage_def update_account_def delete_account_def release_code_def dec_ref_count_def
      inc_ref_count_def is_zero_def Let_def kEmptyHash_def
      demo_state_def demo_row_A_def demo_row_B_def demo_account_A_def
      find_account_def find_code_def find_slot_def by_address_def by_codehash_def by_key_def)

section \<open>Reference counts do not underflow\<close>

lemma tbl_modify_fixed: "find P xs = Some x \<Longrightarrow> f x = x \<Longrightarrow> tbl_modify P f xs = xs"
  by (induction xs) (auto split: if_splits)

lemma subseq_set_mono: "subseq xs ys \<Longrightarrow> set xs \<subseteq> set ys"
  using list_emb_set[of "(=)" xs ys] by blast

lemma dec_ref_count_zero: "c_ref_count c = 0 \<Longrightarrow> dec_ref_count c = c"
  by (simp add: dec_ref_count_def)

lemma gc_codes_subset: "set (codes (fst (gc s n))) \<subseteq> set (codes s)"
  using gc_run_subseq(3)[of s n] by (simp add: gc_def Let_def subseq_set_mono)

text \<open>
  C10. The reference count never underflows. Through \<^verbatim>\<open>update_account\<close>, whatever its
  arguments, the count of a code object never grows, drops by at most one and stays zero
  when it is zero (the decrement is guarded by a positive count, so it never wraps to
  \<open>2^32 - 1\<close>). When a deletion finds the count already zero, the code table is left
  unchanged and a code-queue entry is still appended. No other operation can wrap a zero
  count to \<open>2^32 - 1\<close> either: \<^verbatim>\<open>update_account_code\<close> keeps a count or adds one to it,
  \<^verbatim>\<open>update_storage\<close> leaves the code table alone, and \<^verbatim>\<open>gc\<close> only removes code rows.
\<close>

theorem ref_count_never_underflows:
  "(\<forall>c. find_code s h = Some c \<longrightarrow>
      (\<exists>c'. find_code (update_account s address initial current) h = Some c'
            \<and> unat (c_ref_count c') \<le> unat (c_ref_count c)
            \<and> unat (c_ref_count c) \<le> Suc (unat (c_ref_count c'))
            \<and> (c_ref_count c = 0 \<longrightarrow> c_ref_count c' = 0)))
   \<and> (\<forall>r c. find_account s address = Some r \<and> a_code_hash r = Some h
            \<and> find_code s h = Some c \<and> c_ref_count c = 0 \<and> initial \<noteq> None \<longrightarrow>
        (let s' = update_account s address initial None in
           codes s' = codes s
         \<and> find_code s' h = Some c
         \<and> gc_code s' = gc_code s @ [\<lparr>gc_id = gc_code_next s, gc_code_id = c_id c\<rparr>]))
   \<and> (\<forall>c. find_code s h = Some c \<longrightarrow>
        (\<exists>c'. find_code (update_account_code s address incarnation h2 code) h = Some c'
              \<and> (c_ref_count c' = c_ref_count c \<or> c_ref_count c' = c_ref_count c + 1)
              \<and> (c_ref_count c = 0 \<longrightarrow> c_ref_count c' \<noteq> - 1)))
   \<and> codes (update_storage s address incarnation location initial_value current_value) = codes s
   \<and> set (codes (fst (gc s n))) \<subseteq> set (codes s)"
proof -
  have 1: "\<forall>c. find_code s h = Some c \<longrightarrow>
      (\<exists>c'. find_code (update_account s address initial current) h = Some c'
            \<and> unat (c_ref_count c') \<le> unat (c_ref_count c)
            \<and> unat (c_ref_count c) \<le> Suc (unat (c_ref_count c'))
            \<and> (c_ref_count c = 0 \<longrightarrow> c_ref_count c' = 0))"
  proof (intro allI impI)
    fix c assume f: "find_code s h = Some c"
    have d: "unat (c_ref_count (dec_ref_count c)) \<le> unat (c_ref_count c)
       \<and> unat (c_ref_count c) \<le> Suc (unat (c_ref_count (dec_ref_count c)))
       \<and> (c_ref_count c = 0 \<longrightarrow> c_ref_count (dec_ref_count c) = 0)"
      by (auto simp: dec_ref_count_zero)
    show "\<exists>c'. find_code (update_account s address initial current) h = Some c'
            \<and> unat (c_ref_count c') \<le> unat (c_ref_count c)
            \<and> unat (c_ref_count c) \<le> Suc (unat (c_ref_count c'))
            \<and> (c_ref_count c = 0 \<longrightarrow> c_ref_count c' = 0)"
      using f d by (simp add: update_account_find_code)
  qed
  have 2: "\<forall>r c. find_account s address = Some r \<and> a_code_hash r = Some h
            \<and> find_code s h = Some c \<and> c_ref_count c = 0 \<and> initial \<noteq> None \<longrightarrow>
        (let s' = update_account s address initial None in
           codes s' = codes s
         \<and> find_code s' h = Some c
         \<and> gc_code s' = gc_code s @ [\<lparr>gc_id = gc_code_next s, gc_code_id = c_id c\<rparr>])"
  proof (intro allI impI)
    fix r c
    assume a: "find_account s address = Some r \<and> a_code_hash r = Some h
            \<and> find_code s h = Some c \<and> c_ref_count c = 0 \<and> initial \<noteq> None"
    let ?s' = "update_account s address initial None"
    have eq: "?s' = delete_account
        (s\<lparr>stats := (stats s)\<lparr>stat_account_read := stat_account_read (stats s) + 1\<rparr>\<rparr>) address r"
      using a by (intro update_account_delete) simp_all
    have m: "tbl_modify (by_codehash h) dec_ref_count (codes s) = codes s"
      using a by (intro tbl_modify_fixed[where x=c]) (simp_all add: find_code_def dec_ref_count_zero)
    have c1: "codes ?s' = codes s"
      unfolding eq using a m by (simp add: delete_account_codes find_code_def)
    have c2: "find_code ?s' h = Some c"
      using a c1 by (simp add: find_code_def)
    have c3: "gc_code ?s' = gc_code s @ [\<lparr>gc_id = gc_code_next s, gc_code_id = c_id c\<rparr>]"
      unfolding eq using a by (simp add: delete_account_codes find_code_def)
    show "let s' = ?s' in
           codes s' = codes s
         \<and> find_code s' h = Some c
         \<and> gc_code s' = gc_code s @ [\<lparr>gc_id = gc_code_next s, gc_code_id = c_id c\<rparr>]"
      unfolding Let_def using c1 c2 c3 by blast
  qed
  have 3: "\<forall>c. find_code s h = Some c \<longrightarrow>
        (\<exists>c'. find_code (update_account_code s address incarnation h2 code) h = Some c'
              \<and> (c_ref_count c' = c_ref_count c \<or> c_ref_count c' = c_ref_count c + 1)
              \<and> (c_ref_count c = 0 \<longrightarrow> c_ref_count c' \<noteq> - 1))"
    by (auto simp: update_account_code_find_code)
  have 4: "codes (update_storage s address incarnation location initial_value current_value) = codes s"
    by (rule update_storage_frame)
  have 5: "set (codes (fst (gc s n))) \<subseteq> set (codes s)"
    by (rule gc_codes_subset)
  show ?thesis using 1 2 3 4 5 by blast
qed

theorem ref_count_never_underflows_witness:
  "find_account demo_zero_state 0xA = Some demo_row_A
   \<and> a_code_hash demo_row_A = Some 0x11
   \<and> find_code demo_zero_state 0x11 = Some demo_zero_code
   \<and> c_ref_count demo_zero_code = 0
   \<and> Some demo_account_A \<noteq> None
   \<and> (let s' = update_account demo_zero_state 0xA (Some demo_account_A) None in
          codes s' = [demo_zero_code]
        \<and> find_code s' 0x11 = Some demo_zero_code
        \<and> gc_code s' = [\<lparr>gc_id = 0, gc_code_id = 0\<rparr>])"
proof -
  have h1: "find_account demo_zero_state 0xA = Some demo_row_A"
    by (simp add: find_account_def demo_zero_state_def demo_state_def demo_row_A_def
        demo_row_B_def by_address_def)
  have h2: "a_code_hash demo_row_A = Some 0x11"
    by (simp add: demo_row_A_def)
  have h3: "find_code demo_zero_state 0x11 = Some demo_zero_code"
    by (simp add: find_code_def demo_zero_state_def demo_zero_code_def by_codehash_def)
  have h4: "c_ref_count demo_zero_code = 0"
    by (simp add: demo_zero_code_def)
  have h5: "Some demo_account_A \<noteq> None"
    by simp
  have n: "codes demo_zero_state = [demo_zero_code]" "gc_code demo_zero_state = []"
    "gc_code_next demo_zero_state = 0" "c_id demo_zero_code = 0"
    by (simp_all add: demo_zero_state_def demo_state_def demo_zero_code_def)
  show ?thesis
    using h1 h2 h3 h4 h5
      ref_count_never_underflows [where s = demo_zero_state and h = "0x11" and address = "0xA"
        and initial = "Some demo_account_A" and current = None]
    by (simp add: Let_def n)
qed

section \<open>Readers\<close>

lemmas demo_eval =
  demo_state_def demo_row_A_def demo_row_B_def demo_account_A_def demo_code_def
  find_account_def find_code_def find_slot_def by_address_def by_codehash_def by_key_def
  by_code_id_def in_scope_def

lemma read_slot_fst:
  "fst (read_slot s k location) = (case find_slot s k location of None \<Rightarrow> 0 | Some x \<Rightarrow> s_value (snd x))"
  by (simp add: read_slot_def Let_def find_slot_def split: option.splits)

lemma read_storage_fst:
  "fst (read_storage s address incarnation location) =
     (case addr2id s address of
        Some k \<Rightarrow> (case find_slot s k location of None \<Rightarrow> 0 | Some x \<Rightarrow> s_value (snd x))
      | None \<Rightarrow>
          (case find_account s address of
             None \<Rightarrow> 0
           | Some r \<Rightarrow> (case find_slot s (a_id r) location of None \<Rightarrow> 0 | Some x \<Rightarrow> s_value (snd x))))"
  by (simp add: read_storage_def read_slot_fst Let_def find_slot_def split: option.splits)

lemma read_account_fst_None:
  "find_account s address = None \<Longrightarrow> fst (read_account s address) = None"
  by (simp add: read_account_def Let_def)

lemma read_tables_unchanged:
  "accounts (snd (read_account s address)) = accounts s"
  "storage (snd (read_account s address)) = storage s"
  "codes (snd (read_account s address)) = codes s"
  "gc_store (snd (read_account s address)) = gc_store s"
  "gc_code (snd (read_account s address)) = gc_code s"
  "accounts (snd (read_storage s address incarnation location)) = accounts s"
  "storage (snd (read_storage s address incarnation location)) = storage s"
  "codes (snd (read_storage s address incarnation location)) = codes s"
  "gc_store (snd (read_storage s address incarnation location)) = gc_store s"
  "gc_code (snd (read_storage s address incarnation location)) = gc_code s"
  "accounts (snd (read_code s h)) = accounts s"
  "storage (snd (read_code s h)) = storage s"
  "codes (snd (read_code s h)) = codes s"
  "gc_store (snd (read_code s h)) = gc_store s"
  "gc_code (snd (read_code s h)) = gc_code s"
  by (simp_all add: read_account_def read_storage_def read_slot_def read_code_def Let_def
      split: option.splits)

text \<open>
  C7, as the code has it. No read operation has a failing branch. \<^verbatim>\<open>read_account\<close> returns
  empty for an address without a record. \<^verbatim>\<open>read_storage\<close> returns zero when the address is
  neither in the \<^verbatim>\<open>addr2id\<close> cache nor in the account table, and when the scope the address
  resolves to has no slot for the location; an address in the cache is answered from the
  cached id without looking at the account table. \<^verbatim>\<open>read_code\<close> returns the empty view when
  the hash is not in the \<^verbatim>\<open>addr2code\<close> cache and the code table has no object for it or an
  object with no bytes; a hash in the cache is answered from the cache. The reads change no
  table.
\<close>

theorem reads_never_fault:
  "(find_account s address = None \<longrightarrow> fst (read_account s address) = None)
   \<and> (addr2id s address = None \<and> find_account s address = None \<longrightarrow>
        fst (read_storage s address incarnation location) = 0)
   \<and> (\<forall>r. addr2id s address = None \<and> find_account s address = Some r
            \<and> find_slot s (a_id r) location = None \<longrightarrow>
        fst (read_storage s address incarnation location) = 0)
   \<and> (\<forall>k. addr2id s address = Some k \<longrightarrow>
        fst (read_storage s address incarnation location) =
          (case find_slot s k location of None \<Rightarrow> 0 | Some x \<Rightarrow> s_value (snd x)))
   \<and> (addr2code s h = None \<and> find_code s h = None \<longrightarrow> fst (read_code s h) = [])
   \<and> (\<forall>c. addr2code s h = None \<and> find_code s h = Some c \<and> c_code c = [] \<longrightarrow>
        fst (read_code s h) = [])
   \<and> (\<forall>code. addr2code s h = Some code \<longrightarrow> read_code s h = (code, s))
   \<and> accounts (snd (read_account s address)) = accounts s
   \<and> storage (snd (read_storage s address incarnation location)) = storage s
   \<and> codes (snd (read_code s h)) = codes s"
  by (simp add: read_account_fst_None read_storage_fst read_code_uncached read_tables_unchanged)
     (simp add: read_code_def)

theorem reads_never_fault_witness:
  "find_account demo_state 0xC = None
   \<and> addr2id demo_state 0xC = None
   \<and> addr2code demo_state 0x22 = None
   \<and> find_code demo_state 0x22 = None
   \<and> fst (read_account demo_state 0xC) = None
   \<and> fst (read_storage demo_state 0xC 0 1) = 0
   \<and> fst (read_code demo_state 0x22) = []
   \<and> addr2id demo_state 0xB = None
   \<and> find_account demo_state 0xB = Some demo_row_B
   \<and> find_slot demo_state (a_id demo_row_B) 7 = None
   \<and> fst (read_storage demo_state 0xB 0 7) = 0
   \<and> addr2id demo_stale_id_state 0xA = Some 0
   \<and> fst (read_storage demo_stale_id_state 0xA 0 9) = 0
   \<and> addr2code demo_empty_code_state 0x33 = None
   \<and> find_code demo_empty_code_state 0x33 =
       Some \<lparr>c_id = 1, c_ref_count = 1, c_code = [], c_code_hash = 0x33\<rparr>
   \<and> fst (read_code demo_empty_code_state 0x33) = []
   \<and> addr2code demo_stale_code_state 0x11 = Some demo_code
   \<and> read_code demo_stale_code_state 0x11 = (demo_code, demo_stale_code_state)"
proof -
  have a: "find_account demo_state 0xC = None \<and> addr2id demo_state 0xC = None
      \<and> addr2code demo_state 0x22 = None \<and> find_code demo_state 0x22 = None"
    by (simp add: demo_eval)
  have a': "fst (read_account demo_state 0xC) = None
      \<and> fst (read_storage demo_state 0xC 0 1) = 0
      \<and> fst (read_code demo_state 0x22) = []"
    using a reads_never_fault [where s = demo_state and address = "0xC" and incarnation = 0
        and location = 1 and h = "0x22"]
    by simp
  have b: "addr2id demo_state 0xB = None \<and> find_account demo_state 0xB = Some demo_row_B
      \<and> find_slot demo_state (a_id demo_row_B) 7 = None"
    by (simp add: demo_eval)
  have b': "fst (read_storage demo_state 0xB 0 7) = 0"
    using b reads_never_fault [where s = demo_state and address = "0xB" and incarnation = 0
        and location = 7]
    by simp
  have c: "addr2id demo_stale_id_state 0xA = Some 0"
    by (simp add: demo_stale_id_state_def read_account_def update_account_def delete_account_def
        release_code_def dec_ref_count_def Let_def demo_eval)
  have c0: "find_slot demo_stale_id_state 0 9 = None"
    by (simp add: demo_stale_id_state_def read_account_def update_account_def delete_account_def
        release_code_def dec_ref_count_def Let_def demo_eval)
  have c': "fst (read_storage demo_stale_id_state 0xA 0 9) = 0"
    using c c0 reads_never_fault [where s = demo_stale_id_state and address = "0xA"
        and incarnation = 0 and location = 9]
    by simp
  have d: "addr2code demo_empty_code_state 0x33 = None
      \<and> find_code demo_empty_code_state 0x33 =
          Some \<lparr>c_id = 1, c_ref_count = 1, c_code = [], c_code_hash = 0x33\<rparr>"
    by (simp add: demo_empty_code_state_def update_account_code_def Let_def demo_eval)
  have d': "fst (read_code demo_empty_code_state 0x33) = []"
    using d reads_never_fault [where s = demo_empty_code_state and h = "0x33"]
    by simp
  have e: "addr2code demo_stale_code_state 0x11 = Some demo_code"
    by (simp add: demo_stale_code_state_def read_code_def
        update_account_def delete_account_def release_code_def dec_ref_count_def
        gc_def gc_run_def gc_store_loop.simps gc_code_loop.simps drain_scope.simps
        collectable_def Let_def demo_eval)
  have e': "read_code demo_stale_code_state 0x11 = (demo_code, demo_stale_code_state)"
    using e reads_never_fault [where s = demo_stale_code_state and h = "0x11"]
    by simp
  show ?thesis
    using a a' b b' c c' d d' e e' by blast
qed

text \<open>
  C7 as stated fails on a cache that has outlived a row. After \<^verbatim>\<open>read_account(0xA)\<close> and the
  deletion of \<open>0xA\<close>, the account does not exist and \<^verbatim>\<open>read_account\<close> returns empty, yet
  \<^verbatim>\<open>read_storage\<close> resolves \<open>0xA\<close> through the cached id and returns the slot's stored value
  5. After \<^verbatim>\<open>read_code(0x11)\<close>, the deletion of \<open>0xA\<close> and a full collection, the code table
  has no object for \<open>0x11\<close>, yet \<^verbatim>\<open>read_code\<close> returns the cached bytes.
\<close>

theorem reads_stale_cache_counterexample:
  "find_account demo_stale_id_state 0xA = None
   \<and> fst (read_account demo_stale_id_state 0xA) = None
   \<and> fst (read_storage demo_stale_id_state 0xA 0 1) = 5
   \<and> fst (read_storage demo_stale_id_state 0xA 0 1) \<noteq> 0
   \<and> find_code demo_stale_code_state 0x11 = None
   \<and> fst (read_code demo_stale_code_state 0x11) = demo_code
   \<and> fst (read_code demo_stale_code_state 0x11) \<noteq> []"
proof -
  have 1: "find_account demo_stale_id_state 0xA = None
      \<and> fst (read_account demo_stale_id_state 0xA) = None
      \<and> fst (read_storage demo_stale_id_state 0xA 0 1) = 5"
    by (simp add: demo_stale_id_state_def read_account_def read_storage_def read_slot_def
        update_account_def delete_account_def release_code_def dec_ref_count_def Let_def
        demo_eval)
  have 2: "find_code demo_stale_code_state 0x11 = None
      \<and> fst (read_code demo_stale_code_state 0x11) = demo_code"
    by (simp add: demo_stale_code_state_def read_code_def
        update_account_def delete_account_def release_code_def dec_ref_count_def
        gc_def gc_run_def gc_store_loop.simps gc_code_loop.simps drain_scope.simps
        collectable_def Let_def demo_eval)
  have 3: "demo_code \<noteq> []"
    by (simp add: demo_code_def)
  show ?thesis
    using 1 2 3 by simp
qed

section \<open>Storage slots\<close>

lemma by_key_slot_key: "by_key scope location x = (slot_key x = (scope, location))"
  by (auto simp: by_key_def slot_key_def)

lemma set_tbl_modify: "set (tbl_modify P f xs) \<subseteq> set xs \<union> f ` {x \<in> set xs. P x}"
  by (induction xs) auto

lemma list_all_tbl_erase: "list_all Q xs \<Longrightarrow> list_all Q (tbl_erase P xs)"
  by (induction xs) auto

lemma list_all_tbl_modify: "list_all Q xs \<Longrightarrow> (\<And>x. P x \<Longrightarrow> Q (f x)) \<Longrightarrow> list_all Q (tbl_modify P f xs)"
  by (induction xs) auto

lemma find_slot_None_key: "find (by_key scope location) xs = None \<Longrightarrow> (scope, location) \<notin> slot_key ` set xs"
  by (force simp: find_None_iff by_key_slot_key)

lemma find_tbl_erase_other:
  "(\<And>x. P x \<Longrightarrow> \<not> Q x) \<Longrightarrow> find Q (tbl_erase P xs) = find Q xs"
  by (induction xs) auto

lemma find_tbl_modify_other:
  "(\<And>x. P x \<Longrightarrow> \<not> Q x \<and> \<not> Q (f x)) \<Longrightarrow> find Q (tbl_modify P f xs) = find Q xs"
  by (induction xs) auto


lemma update_storage_zero_storage:
  "storage (update_storage s address incarnation location initial 0) =
     (case find_account s address of
        None \<Rightarrow> storage s
      | Some r \<Rightarrow> tbl_erase (by_key (a_id r) location) (storage s))"
  by (auto simp: update_storage_def Let_def is_zero_def find_slot_def find_None_tbl_erase
      split: option.splits)

lemma update_storage_nonzero_storage:
  "current \<noteq> 0 \<Longrightarrow>
   storage (update_storage s address incarnation location initial current) =
     (case find_slot s (slot_scope s address) location of
        None \<Rightarrow> storage s @ [(slot_scope s address,
                    \<lparr>s_id = storage_next s (slot_scope s address), s_key = location, s_value = current\<rparr>)]
      | Some x \<Rightarrow> tbl_modify (by_key (slot_scope s address) location)
                    (\<lambda>x. (fst x, (snd x)\<lparr>s_value := current\<rparr>)) (storage s))"
  by (auto simp: update_storage_def Let_def is_zero_def find_slot_def slot_scope_def
      split: option.splits)

lemma update_storage_noop:
  "find_account s address = None \<or> find_slot s (slot_scope s address) location = None \<Longrightarrow>
   update_storage s address incarnation location initial 0 =
     s\<lparr>stats := stats (update_storage s address incarnation location initial 0)\<rparr>"
  by (auto simp: update_storage_def Let_def is_zero_def slot_scope_def find_slot_def
      split: option.splits)


lemma update_storage_sparse:
  assumes "sparse s"
  shows "sparse (update_storage s address incarnation location initial current)"
proof (cases "current = 0")
  case True
  then show ?thesis
    using assms
    by (auto simp: sparse_def update_storage_zero_storage list_all_tbl_erase distinct_map_tbl_erase
        split: option.splits)
next
  case False
  let ?k = "slot_scope s address"
  show ?thesis
  proof (cases "find_slot s ?k location")
    case None
    then have "(?k, location) \<notin> slot_key ` set (storage s)"
      by (simp add: find_slot_def find_slot_None_key)
    then show ?thesis
      using assms False None
      by (simp add: sparse_def update_storage_nonzero_storage slot_key_def)
  next
    case (Some x)
    have "map slot_key (tbl_modify (by_key ?k location) (\<lambda>x. (fst x, (snd x)\<lparr>s_value := current\<rparr>)) (storage s))
        = map slot_key (storage s)"
      by (intro map_tbl_modify) (simp add: slot_key_def)
    moreover have "list_all (\<lambda>x. s_value (snd x) \<noteq> 0)
        (tbl_modify (by_key ?k location) (\<lambda>x. (fst x, (snd x)\<lparr>s_value := current\<rparr>)) (storage s))"
      using assms False by (intro list_all_tbl_modify) (simp_all add: sparse_def)
    ultimately show ?thesis
      using assms False Some by (simp add: sparse_def update_storage_nonzero_storage)
  qed
qed

lemma sparse_slot_iff:
  "sparse s \<Longrightarrow> (find_slot s k K \<noteq> None) = (slot_value s k K \<noteq> 0)"
proof (cases "find_slot s k K")
  case None
  then show ?thesis by (simp add: slot_value_def)
next
  case (Some x)
  assume "sparse s"
  moreover have "x \<in> set (storage s)"
    using Some find_Some_P[of "by_key k K" "storage s" x] by (simp add: find_slot_def)
  ultimately have "s_value (snd x) \<noteq> 0" by (auto simp: sparse_def list_all_iff)
  then show ?thesis using Some by (simp add: slot_value_def)
qed

lemma update_storage_zero_slot:
  assumes "sparse s" and "find_account s address = Some r"
  shows "find_slot (update_storage s address incarnation location initial 0) (a_id r) location = None"
proof -
  have "find (by_key (a_id r) location) (tbl_erase (by_key (a_id r) location) (storage s)) = None"
    using assms(1)
    by (intro find_tbl_erase_distinct[where k = slot_key and v = "(a_id r, location)"])
       (simp_all add: sparse_def by_key_slot_key)
  then show ?thesis using assms(2) by (simp add: find_slot_def update_storage_zero_storage)
qed

lemma update_storage_nonzero_slot:
  assumes "current \<noteq> 0"
  shows "\<exists>x. find_slot (update_storage s address incarnation location initial current)
               (slot_scope s address) location = Some x
             \<and> fst x = slot_scope s address \<and> s_key (snd x) = location \<and> s_value (snd x) = current"
proof (cases "find_slot s (slot_scope s address) location")
  case None
  then show ?thesis
    using assms
    by (simp add: find_slot_def update_storage_nonzero_storage find_append_tbl by_key_def)
next
  case (Some x)
  let ?f = "\<lambda>x. (fst x, (snd x)\<lparr>s_value := current\<rparr>)"
  have p: "by_key (slot_scope s address) location x"
    using Some find_Some_P[of "by_key (slot_scope s address) location" "storage s" x]
    by (simp add: find_slot_def)
  then have "by_key (slot_scope s address) location (?f x)" by (simp add: by_key_def)
  then have "find (by_key (slot_scope s address) location)
               (tbl_modify (by_key (slot_scope s address) location) ?f (storage s)) = Some (?f x)"
    using Some by (intro find_tbl_modify_same) (simp_all add: find_slot_def)
  then show ?thesis
    using assms Some p by (simp add: find_slot_def update_storage_nonzero_storage by_key_def)
qed

lemma update_storage_other_slot:
  assumes "(k, K) \<noteq> (slot_scope s address, location)"
  shows "find_slot (update_storage s address incarnation location initial current) k K = find_slot s k K"
proof -
  let ?sc = "slot_scope s address"
  have ne: "\<And>x. by_key ?sc location x \<Longrightarrow> \<not> by_key k K x"
    using assms by (auto simp: by_key_def)
  show ?thesis
  proof (cases "current = 0")
    case True
    show ?thesis
    proof (cases "find_account s address")
      case None
      then show ?thesis using True by (simp add: find_slot_def update_storage_zero_storage)
    next
      case (Some r)
      then have sc: "?sc = a_id r" by (simp add: slot_scope_def)
      have "find (by_key k K) (tbl_erase (by_key (a_id r) location) (storage s)) = find (by_key k K) (storage s)"
        using ne sc by (intro find_tbl_erase_other) simp
      then show ?thesis using True Some by (simp add: find_slot_def update_storage_zero_storage)
    qed
  next
    case False
    show ?thesis
    proof (cases "find_slot s ?sc location")
      case None
      then show ?thesis
        using False assms
        by (auto simp: find_slot_def update_storage_nonzero_storage find_append_tbl by_key_def
            split: option.splits)
    next
      case (Some x)
      have "find (by_key k K) (tbl_modify (by_key ?sc location) (\<lambda>x. (fst x, (snd x)\<lparr>s_value := current\<rparr>)) (storage s))
          = find (by_key k K) (storage s)"
        using assms by (intro find_tbl_modify_other) (auto simp: by_key_def)
      then show ?thesis using False Some by (simp add: find_slot_def update_storage_nonzero_storage)
    qed
  qed
qed

lemma update_account_storage:
  "storage (update_account s address initial current) = storage s"
proof (cases current)
  case None
  then show ?thesis
    by (auto simp: update_account_def Let_def delete_account_fields split: option.splits)
next
  case (Some cur)
  then show ?thesis by (simp add: update_account_present_frame)
qed

lemma subseq_distinct_map:
  "subseq xs ys \<Longrightarrow> distinct (map f ys) \<Longrightarrow> distinct (map f xs)"
proof (induction rule: list_emb.induct)
  case (list_emb_Nil ys)
  then show ?case by simp
next
  case (list_emb_Cons xs ys y)
  then show ?case by simp
next
  case (list_emb_Cons2 x y xs ys)
  then have "set xs \<subseteq> set ys" by (simp add: subseq_set_mono)
  then show ?case using list_emb_Cons2 by auto
qed

lemma gc_sparse: "sparse s \<Longrightarrow> sparse (fst (gc s n))"
proof -
  assume sp: "sparse s"
  have sub: "subseq (storage (fst (gc s n))) (storage s)"
    using gc_run_subseq(1)[of s n] by (simp add: gc_def Let_def)
  then have "set (storage (fst (gc s n))) \<subseteq> set (storage s)" by (rule subseq_set_mono)
  then have "list_all (\<lambda>x. s_value (snd x) \<noteq> 0) (storage (fst (gc s n)))"
    using sp by (auto simp: sparse_def list_all_iff)
  moreover have "distinct (map slot_key (storage (fst (gc s n))))"
    using sub sp by (auto simp: sparse_def intro: subseq_distinct_map)
  ultimately show ?thesis by (simp add: sparse_def)
qed

text \<open>
  C5. Zero-slot sparsity: in a state where no stored slot holds zero and no scope has two
  records for one key, a slot record for a key exists exactly when the key's value is
  nonzero; the empty state is such a state and every operation keeps the state so. \<^verbatim>\<open>update_storage\<close> with a zero value
  deletes the slot if the account and the slot exist, leaving no record for the key, and
  changes no table or cache (only the read counters advance) when the account or the slot
  does not exist. With a nonzero value it appends a record when the scope has none for the
  key and overwrites the value of the existing record otherwise, so that the key then holds
  the value written. No other key of any scope changes its value.
\<close>

theorem zero_slot_sparsity:
  "sparse empty_state
   \<and> (sparse s \<longrightarrow>
     (let s' = update_storage s address incarnation location initial current;
          scope = slot_scope s address in
        sparse s'
      \<and> (\<forall>k K. (find_slot s k K \<noteq> None) = (slot_value s k K \<noteq> 0))
      \<and> (\<forall>k K. (find_slot s' k K \<noteq> None) = (slot_value s' k K \<noteq> 0))
      \<and> (current = 0 \<longrightarrow>
            (find_account s address \<noteq> None \<longrightarrow>
               find_slot s' scope location = None
             \<and> storage s' = tbl_erase (by_key scope location) (storage s))
          \<and> (find_account s address = None \<or> find_slot s scope location = None \<longrightarrow>
               s' = s\<lparr>stats := stats s'\<rparr>)
          \<and> accounts s' = accounts s)
      \<and> (current \<noteq> 0 \<longrightarrow>
            slot_value s' scope location = current
          \<and> (find_slot s scope location = None \<longrightarrow>
               storage s' = storage s @
                 [(scope, \<lparr>s_id = storage_next s scope, s_key = location, s_value = current\<rparr>)])
          \<and> (find_slot s scope location \<noteq> None \<longrightarrow>
               storage s' = tbl_modify (by_key scope location)
                              (\<lambda>x. (fst x, (snd x)\<lparr>s_value := current\<rparr>)) (storage s)
             \<and> length (storage s') = length (storage s)))
      \<and> (\<forall>k K. (k, K) \<noteq> (scope, location) \<longrightarrow> slot_value s' k K = slot_value s k K)
      \<and> sparse (update_account s address2 before after)
      \<and> sparse (update_account_code s address2 incarnation2 h code)
      \<and> sparse (fst (gc s n))))"
proof (intro conjI impI)
  show "sparse empty_state"
    by (simp add: sparse_def empty_state_def)
next
  assume sp: "sparse s"
  let ?s' = "update_storage s address incarnation location initial current"
  let ?sc = "slot_scope s address"
  have 1: "sparse ?s'" using sp by (rule update_storage_sparse)
  have 2: "\<forall>k K. (find_slot s k K \<noteq> None) = (slot_value s k K \<noteq> 0)"
    using sp sparse_slot_iff by blast
  have 3: "\<forall>k K. (find_slot ?s' k K \<noteq> None) = (slot_value ?s' k K \<noteq> 0)"
    using 1 sparse_slot_iff by blast
  have 4: "current = 0 \<longrightarrow>
            (find_account s address \<noteq> None \<longrightarrow>
               find_slot ?s' ?sc location = None
             \<and> storage ?s' = tbl_erase (by_key ?sc location) (storage s))
          \<and> (find_account s address = None \<or> find_slot s ?sc location = None \<longrightarrow>
               ?s' = s\<lparr>stats := stats ?s'\<rparr>)
          \<and> accounts ?s' = accounts s"
  proof
    assume z: "current = 0"
    have a: "find_account s address \<noteq> None \<longrightarrow>
               find_slot ?s' ?sc location = None
             \<and> storage ?s' = tbl_erase (by_key ?sc location) (storage s)"
      using sp z update_storage_zero_slot[of s address _ incarnation location initial]
      by (auto simp: slot_scope_def update_storage_zero_storage)
    have b: "find_account s address = None \<or> find_slot s ?sc location = None \<longrightarrow>
               ?s' = s\<lparr>stats := stats ?s'\<rparr>"
      using z update_storage_noop[of s address location incarnation initial] by blast
    have c: "accounts ?s' = accounts s"
      using z by (simp add: update_storage_accounts)
    show "(find_account s address \<noteq> None \<longrightarrow>
               find_slot ?s' ?sc location = None
             \<and> storage ?s' = tbl_erase (by_key ?sc location) (storage s))
          \<and> (find_account s address = None \<or> find_slot s ?sc location = None \<longrightarrow>
               ?s' = s\<lparr>stats := stats ?s'\<rparr>)
          \<and> accounts ?s' = accounts s"
      using a b c by blast
  qed
  have 5: "current \<noteq> 0 \<longrightarrow>
            slot_value ?s' ?sc location = current
          \<and> (find_slot s ?sc location = None \<longrightarrow>
               storage ?s' = storage s @
                 [(?sc, \<lparr>s_id = storage_next s ?sc, s_key = location, s_value = current\<rparr>)])
          \<and> (find_slot s ?sc location \<noteq> None \<longrightarrow>
               storage ?s' = tbl_modify (by_key ?sc location)
                              (\<lambda>x. (fst x, (snd x)\<lparr>s_value := current\<rparr>)) (storage s)
             \<and> length (storage ?s') = length (storage s))"
  proof
    assume nz: "current \<noteq> 0"
    have a: "slot_value ?s' ?sc location = current"
      using update_storage_nonzero_slot[OF nz, of s address incarnation location initial]
      by (auto simp: slot_value_def)
    have b: "find_slot s ?sc location = None \<longrightarrow>
               storage ?s' = storage s @
                 [(?sc, \<lparr>s_id = storage_next s ?sc, s_key = location, s_value = current\<rparr>)]"
      using nz by (simp add: update_storage_nonzero_storage)
    have c: "find_slot s ?sc location \<noteq> None \<longrightarrow>
               storage ?s' = tbl_modify (by_key ?sc location)
                              (\<lambda>x. (fst x, (snd x)\<lparr>s_value := current\<rparr>)) (storage s)
             \<and> length (storage ?s') = length (storage s)"
      using nz by (auto simp: update_storage_nonzero_storage length_tbl_modify)
    show "slot_value ?s' ?sc location = current
          \<and> (find_slot s ?sc location = None \<longrightarrow>
               storage ?s' = storage s @
                 [(?sc, \<lparr>s_id = storage_next s ?sc, s_key = location, s_value = current\<rparr>)])
          \<and> (find_slot s ?sc location \<noteq> None \<longrightarrow>
               storage ?s' = tbl_modify (by_key ?sc location)
                              (\<lambda>x. (fst x, (snd x)\<lparr>s_value := current\<rparr>)) (storage s)
             \<and> length (storage ?s') = length (storage s))"
      using a b c by blast
  qed
  have 6: "\<forall>k K. (k, K) \<noteq> (?sc, location) \<longrightarrow> slot_value ?s' k K = slot_value s k K"
    using update_storage_other_slot[of _ _ s address location incarnation initial current]
    by (simp add: slot_value_def)
  have 7: "sparse (update_account s address2 before after)"
    using sp by (simp add: sparse_def update_account_storage)
  have 8: "sparse (update_account_code s address2 incarnation2 h code)"
    using sp by (simp add: sparse_def update_account_code_frame)
  have 9: "sparse (fst (gc s n))"
    using sp by (rule gc_sparse)
  show "let s' = ?s'; scope = ?sc in
        sparse s'
      \<and> (\<forall>k K. (find_slot s k K \<noteq> None) = (slot_value s k K \<noteq> 0))
      \<and> (\<forall>k K. (find_slot s' k K \<noteq> None) = (slot_value s' k K \<noteq> 0))
      \<and> (current = 0 \<longrightarrow>
            (find_account s address \<noteq> None \<longrightarrow>
               find_slot s' scope location = None
             \<and> storage s' = tbl_erase (by_key scope location) (storage s))
          \<and> (find_account s address = None \<or> find_slot s scope location = None \<longrightarrow>
               s' = s\<lparr>stats := stats s'\<rparr>)
          \<and> accounts s' = accounts s)
      \<and> (current \<noteq> 0 \<longrightarrow>
            slot_value s' scope location = current
          \<and> (find_slot s scope location = None \<longrightarrow>
               storage s' = storage s @
                 [(scope, \<lparr>s_id = storage_next s scope, s_key = location, s_value = current\<rparr>)])
          \<and> (find_slot s scope location \<noteq> None \<longrightarrow>
               storage s' = tbl_modify (by_key scope location)
                              (\<lambda>x. (fst x, (snd x)\<lparr>s_value := current\<rparr>)) (storage s)
             \<and> length (storage s') = length (storage s)))
      \<and> (\<forall>k K. (k, K) \<noteq> (scope, location) \<longrightarrow> slot_value s' k K = slot_value s k K)
      \<and> sparse (update_account s address2 before after)
      \<and> sparse (update_account_code s address2 incarnation2 h code)
      \<and> sparse (fst (gc s n))"
    unfolding Let_def using 1 2 3 4 5 6 7 8 9 by blast
qed

theorem zero_slot_sparsity_witness:
  "sparse demo_state
   \<and> find_account demo_state 0xA \<noteq> None
   \<and> slot_scope demo_state 0xA = 0
   \<and> slot_value demo_state 0 1 = 5
   \<and> (let s' = update_storage demo_state 0xA 0 1 5 0 in
          sparse s'
        \<and> find_slot s' 0 1 = None
        \<and> slot_value s' 0 1 = 0
        \<and> slot_value s' 0 2 = 7
        \<and> storage s' = [(1, \<lparr>s_id = 0, s_key = 1, s_value = 9\<rparr>),
                         (0, \<lparr>s_id = 1, s_key = 2, s_value = 7\<rparr>)])
   \<and> find_account demo_state 0xC = None
   \<and> slot_scope demo_state 0xC = 2
   \<and> find_slot demo_state 2 1 = None
   \<and> (let s' = update_storage demo_state 0xC 0 1 0 0 in
          s' = demo_state\<lparr>stats := stats s'\<rparr>)
   \<and> (let s' = update_storage demo_state 0xC 0 1 0 6 in
          sparse s'
        \<and> slot_value s' 2 1 = 6
        \<and> storage s' = storage demo_state @ [(2, \<lparr>s_id = 0, s_key = 1, s_value = 6\<rparr>)])
   \<and> (let s' = update_storage demo_state 0xA 0 1 5 8 in
          slot_value s' 0 1 = 8
        \<and> length (storage s') = length (storage demo_state))"
proof -
  have h: "sparse demo_state"
    by (simp add: sparse_def slot_key_def demo_state_def)
  have a: "find_account demo_state 0xA \<noteq> None \<and> slot_scope demo_state 0xA = 0
      \<and> slot_value demo_state 0 1 = 5 \<and> slot_value demo_state 0 2 = 7
      \<and> find_slot demo_state 0 1 \<noteq> None"
    by (simp add: slot_scope_def slot_value_def demo_eval)
  have c: "find_account demo_state 0xC = None \<and> slot_scope demo_state 0xC = 2
      \<and> find_slot demo_state 2 1 = None \<and> storage_next demo_state 2 = 0"
    by (simp add: slot_scope_def demo_eval)
  have e: "tbl_erase (by_key 0 1) (storage demo_state) =
      [(1, \<lparr>s_id = 0, s_key = 1, s_value = 9\<rparr>), (0, \<lparr>s_id = 1, s_key = 2, s_value = 7\<rparr>)]"
    by (simp add: demo_eval)
  have 1: "let s' = update_storage demo_state 0xA 0 1 5 0 in
          sparse s'
        \<and> find_slot s' 0 1 = None
        \<and> slot_value s' 0 1 = 0
        \<and> slot_value s' 0 2 = 7
        \<and> storage s' = [(1, \<lparr>s_id = 0, s_key = 1, s_value = 9\<rparr>),
                         (0, \<lparr>s_id = 1, s_key = 2, s_value = 7\<rparr>)]"
    using h a e
      zero_slot_sparsity [where s = demo_state and address = "0xA" and incarnation = 0
        and location = 1 and initial = 5 and current = 0]
    by (simp add: Let_def slot_value_def)
  have 2: "let s' = update_storage demo_state 0xC 0 1 0 0 in
          s' = demo_state\<lparr>stats := stats s'\<rparr>"
    using h c
      zero_slot_sparsity [where s = demo_state and address = "0xC" and incarnation = 0
        and location = 1 and initial = 0 and current = 0]
    by (simp add: Let_def)
  have 3: "let s' = update_storage demo_state 0xC 0 1 0 6 in
          sparse s'
        \<and> slot_value s' 2 1 = 6
        \<and> storage s' = storage demo_state @ [(2, \<lparr>s_id = 0, s_key = 1, s_value = 6\<rparr>)]"
    using h c
      zero_slot_sparsity [where s = demo_state and address = "0xC" and incarnation = 0
        and location = 1 and initial = 0 and current = 6]
    by (simp add: Let_def)
  have 4: "let s' = update_storage demo_state 0xA 0 1 5 8 in
          slot_value s' 0 1 = 8
        \<and> length (storage s') = length (storage demo_state)"
    using h a
      zero_slot_sparsity [where s = demo_state and address = "0xA" and incarnation = 0
        and location = 1 and initial = 5 and current = 8]
    by (simp add: Let_def length_tbl_modify)
  show ?thesis
    using h a c 1 2 3 4 by simp
qed

section \<open>Reference counts\<close>

lemma filter_tbl_modify_count:
  "find P xs = Some r \<Longrightarrow>
   length (filter Q (tbl_modify P f xs)) + (if Q r then 1 else 0) =
   length (filter Q xs) + (if Q (f r) then 1 else 0)"
  by (induction xs) (auto split: if_splits)

lemma filter_tbl_erase_count:
  "find P xs = Some r \<Longrightarrow>
   length (filter Q (tbl_erase P xs)) + (if Q r then 1 else 0) = length (filter Q xs)"
  by (induction xs) (auto split: if_splits)

lemma set_tbl_modify_distinct:
  assumes "distinct (map k xs)" and "find (\<lambda>x. k x = v) xs = Some c"
    and "c' \<in> set (tbl_modify (\<lambda>x. k x = v) f xs)"
  shows "c' = f c \<or> (c' \<in> set xs \<and> k c' \<noteq> v)"
  using assms
proof (induction xs)
  case Nil
  then show ?case by simp
next
  case (Cons x xs)
  show ?case
  proof (cases "k x = v")
    case True
    then have "c = x" using Cons.prems(2) by simp
    moreover have "\<forall>y \<in> set xs. k y \<noteq> v" using Cons.prems(1) True by (auto simp: image_iff)
    ultimately show ?thesis using Cons.prems(3) True by auto
  next
    case False
    then show ?thesis using Cons by auto
  qed
qed

lemma set_codes_modify:
  assumes "distinct (map c_code_hash xs)" and "find (by_codehash h) xs = Some c"
    and "c' \<in> set (tbl_modify (by_codehash h) f xs)"
  shows "c' = f c \<or> (c' \<in> set xs \<and> c_code_hash c' \<noteq> h)"
  using set_tbl_modify_distinct[of c_code_hash xs h c c' f] assms
  by (simp add: by_codehash_def[abs_def])

lemma find_code_None_hash: "find (by_codehash h) xs = None \<Longrightarrow> c \<in> set xs \<Longrightarrow> c_code_hash c \<noteq> h"
  by (auto simp: find_None_iff by_codehash_def)

lemma find_code_Some_hash: "find (by_codehash h) xs = Some c \<Longrightarrow> c_code_hash c = h \<and> c \<in> set xs"
  using find_Some_P[of "by_codehash h" xs c] by (simp add: by_codehash_def)

lemma ref_counts_exactI:
  "distinct (map c_code_hash (codes s)) \<Longrightarrow>
   (\<And>c. c \<in> set (codes s) \<Longrightarrow> unat (c_ref_count c) = holders s (c_code_hash c)) \<Longrightarrow>
   ref_counts_exact s"
  by (simp add: ref_counts_exact_def list_all_iff)

lemma ref_counts_exactD:
  assumes "ref_counts_exact s"
  shows "distinct (map c_code_hash (codes s))"
    and "\<And>c. c \<in> set (codes s) \<Longrightarrow> unat (c_ref_count c) = holders s (c_code_hash c)"
  using assms by (simp_all add: ref_counts_exact_def list_all_iff)

lemma ref_counts_exact_cong:
  "accounts s' = accounts s \<Longrightarrow> codes s' = codes s \<Longrightarrow> ref_counts_exact s' = ref_counts_exact s"
  by (simp add: ref_counts_exact_def holders_def)

lemma ref_counts_exact_match: "ref_counts_exact s \<Longrightarrow> ref_counts_match s"
  by (simp add: ref_counts_exact_def ref_counts_match_def list_all_iff)

text \<open>Holders after each change of the account table.\<close>

lemma holders_erase:
  "find_account s address = Some r \<Longrightarrow>
   accounts s' = tbl_erase (by_address address) (accounts s) \<Longrightarrow>
   holders s' h + (if a_code_hash r = Some h then 1 else 0) = holders s h"
  using filter_tbl_erase_count[of "by_address address" "accounts s" r "holds h"]
  by (simp add: holders_def find_account_def holds_def)

lemma holders_modify:
  "find_account s address = Some r \<Longrightarrow>
   accounts s' = tbl_modify (by_address address) f (accounts s) \<Longrightarrow>
   holders s' h + (if a_code_hash r = Some h then 1 else 0) =
   holders s h + (if a_code_hash (f r) = Some h then 1 else 0)"
  using filter_tbl_modify_count[of "by_address address" "accounts s" r "holds h" f]
  by (simp add: holders_def find_account_def holds_def)

lemma holders_append:
  "accounts s' = accounts s @ [r] \<Longrightarrow>
   holders s' h = holders s h + (if a_code_hash r = Some h then 1 else 0)"
  by (simp add: holders_def holds_def)

text \<open>Deletion keeps the counts exact.\<close>

lemma delete_account_exact:
  assumes inv: "ref_counts_exact s" and f: "find_account s address = Some r"
  shows "ref_counts_exact (delete_account s address r)"
proof -
  let ?s' = "delete_account s address r"
  have acc: "accounts ?s' = tbl_erase (by_address address) (accounts s)"
    by (simp add: delete_account_fields)
  note h = holders_erase[OF f acc]
  note d = ref_counts_exactD[OF inv]
  show ?thesis
  proof (cases "a_code_hash r")
    case None
    then have c: "codes ?s' = codes s" by (simp add: delete_account_codes)
    have "\<And>h. holders ?s' h = holders s h" using h None by simp
    then show ?thesis using d c by (intro ref_counts_exactI) simp_all
  next
    case (Some h0)
    note rh = this
    show ?thesis
    proof (cases "find_code s h0")
      case None
      then have c: "codes ?s' = codes s" using rh by (simp add: delete_account_codes)
      show ?thesis
      proof (intro ref_counts_exactI)
        show "distinct (map c_code_hash (codes ?s'))" using d(1) c by simp
        fix x assume "x \<in> set (codes ?s')"
        then have x: "x \<in> set (codes s)" using c by simp
        then have "h0 \<noteq> c_code_hash x"
          using None find_code_None_hash[of h0 "codes s" x] by (auto simp: find_code_def)
        then have "holders ?s' (c_code_hash x) = holders s (c_code_hash x)"
          using h[of "c_code_hash x"] rh by simp
        then show "unat (c_ref_count x) = holders ?s' (c_code_hash x)" using d(2)[OF x] by simp
      qed
    next
      case (Some c0)
      then have c: "codes ?s' = tbl_modify (by_codehash h0) dec_ref_count (codes s)"
        using rh by (simp add: delete_account_codes)
      have c0: "c_code_hash c0 = h0" "c0 \<in> set (codes s)"
        using Some find_code_Some_hash[of h0 "codes s" c0] by (simp_all add: find_code_def)
      show ?thesis
      proof (intro ref_counts_exactI)
        show "distinct (map c_code_hash (codes ?s'))"
          using d(1) by (simp add: c map_tbl_modify)
        fix x assume "x \<in> set (codes ?s')"
        then have "x = dec_ref_count c0 \<or> (x \<in> set (codes s) \<and> c_code_hash x \<noteq> h0)"
          using set_codes_modify[OF d(1), of h0 c0 x dec_ref_count] Some
          by (simp add: c find_code_def)
        then show "unat (c_ref_count x) = holders ?s' (c_code_hash x)"
        proof
          assume x: "x = dec_ref_count c0"
          have "unat (c_ref_count c0) = holders s h0" using d(2)[OF c0(2)] c0(1) by simp
          moreover have "holders ?s' h0 + 1 = holders s h0" using h[of h0] rh by simp
          ultimately show ?thesis using x c0(1) by simp
        next
          assume "x \<in> set (codes s) \<and> c_code_hash x \<noteq> h0"
          then have x: "x \<in> set (codes s)" and n: "h0 \<noteq> c_code_hash x" by auto
          have "holders ?s' (c_code_hash x) = holders s (c_code_hash x)"
            using h[of "c_code_hash x"] rh n by simp
          then show ?thesis using d(2)[OF x] by simp
        qed
      qed
    qed
  qed
qed

lemma update_account_delete_exact:
  assumes "ref_counts_exact s"
  shows "ref_counts_exact (update_account s address initial None)"
proof (cases "initial = None")
  case True
  then show ?thesis using assms by (simp add: update_account_def)
next
  case False
  show ?thesis
  proof (cases "find_account s address")
    case None
    then have "update_account s address initial None =
        s\<lparr>stats := (stats s)\<lparr>stat_account_read := stat_account_read (stats s) + 1\<rparr>\<rparr>"
      using False by (auto simp: update_account_def Let_def)
    moreover have "ref_counts_exact
        (s\<lparr>stats := (stats s)\<lparr>stat_account_read := stat_account_read (stats s) + 1\<rparr>\<rparr>)"
      using assms by (simp add: ref_counts_exact_def holders_def)
    ultimately show ?thesis by simp
  next
    case (Some r)
    let ?s1 = "s\<lparr>stats := (stats s)\<lparr>stat_account_read := stat_account_read (stats s) + 1\<rparr>\<rparr>"
    have eq: "update_account s address initial None = delete_account ?s1 address r"
      using Some False by (rule update_account_delete)
    have "ref_counts_exact ?s1" using assms by (simp add: ref_counts_exact_def holders_def)
    moreover have "find_account ?s1 address = Some r" using Some by (simp add: find_account_def)
    ultimately show ?thesis unfolding eq by (rule delete_account_exact)
  qed
qed


lemma unat_inc_u32: "(w :: u32) \<noteq> - 1 \<Longrightarrow> unat (w + 1) = Suc (unat w)"
proof -
  assume "w \<noteq> - 1"
  then have "1 + w \<noteq> 0" using max_word_wrap[of w] by (auto simp: add.commute)
  then have "unat (1 + w) = Suc (unat w)" by (rule unatSuc)
  then show ?thesis by (simp add: add.commute)
qed

lemma find_code_member: "c \<in> set (codes s) \<Longrightarrow> find_code s (c_code_hash c) \<noteq> None"
  by (auto simp: find_code_def find_None_iff by_codehash_def)

text \<open>
  Adoption: the code table gains a count for \<open>h\<close> and \<open>h\<close> gains a holder, while the holders
  of every other stored hash stay the same.
\<close>

lemma adopt_exact:
  assumes inv: "ref_counts_exact s"
    and codes': "codes s' =
        (case find_code s h of
           None \<Rightarrow> codes s @ [\<lparr>c_id = k, c_ref_count = 1, c_code = code, c_code_hash = h\<rparr>]
         | Some c \<Rightarrow> tbl_modify (by_codehash h) inc_ref_count (codes s))"
    and hold: "\<And>h'. h' = h \<or> find_code s h' \<noteq> None \<Longrightarrow>
        holders s' h' = holders s h' + (if h' = h then 1 else 0)"
    and fresh: "case find_code s h of None \<Rightarrow> holders s h = 0 | Some c \<Rightarrow> c_ref_count c \<noteq> - 1"
  shows "ref_counts_exact s'"
proof -
  note d = ref_counts_exactD[OF inv]
  have old: "\<And>x. x \<in> set (codes s) \<Longrightarrow> c_code_hash x \<noteq> h \<Longrightarrow>
      unat (c_ref_count x) = holders s' (c_code_hash x)"
  proof -
    fix x assume x: "x \<in> set (codes s)" and n: "c_code_hash x \<noteq> h"
    have "holders s' (c_code_hash x) = holders s (c_code_hash x)"
      using hold[of "c_code_hash x"] find_code_member[OF x] n by simp
    then show "unat (c_ref_count x) = holders s' (c_code_hash x)" using d(2)[OF x] by simp
  qed
  show ?thesis
  proof (cases "find_code s h")
    case None
    let ?new = "\<lparr>c_id = k, c_ref_count = 1, c_code = code, c_code_hash = h\<rparr>"
    have c: "codes s' = codes s @ [?new]" using codes' None by simp
    have nh: "\<And>x. x \<in> set (codes s) \<Longrightarrow> c_code_hash x \<noteq> h"
      using None find_code_None_hash[of h "codes s"] by (simp add: find_code_def)
    show ?thesis
    proof (intro ref_counts_exactI)
      show "distinct (map c_code_hash (codes s'))"
        using d(1) nh by (auto simp: c)
      fix x assume "x \<in> set (codes s')"
      then have "x = ?new \<or> x \<in> set (codes s)" using c by auto
      then show "unat (c_ref_count x) = holders s' (c_code_hash x)"
      proof
        assume x: "x = ?new"
        have "holders s' h = 1" using hold[of h] fresh None by simp
        then show ?thesis using x by simp
      next
        assume x: "x \<in> set (codes s)"
        then show ?thesis using old nh by blast
      qed
    qed
  next
    case (Some c0)
    have c: "codes s' = tbl_modify (by_codehash h) inc_ref_count (codes s)"
      using codes' Some by simp
    have c0: "c_code_hash c0 = h" "c0 \<in> set (codes s)"
      using Some find_code_Some_hash[of h "codes s" c0] by (simp_all add: find_code_def)
    have nmax: "c_ref_count c0 \<noteq> - 1" using fresh Some by simp
    show ?thesis
    proof (intro ref_counts_exactI)
      show "distinct (map c_code_hash (codes s'))"
        using d(1) by (simp add: c map_tbl_modify)
      fix x assume "x \<in> set (codes s')"
      then have "x = inc_ref_count c0 \<or> (x \<in> set (codes s) \<and> c_code_hash x \<noteq> h)"
        using set_codes_modify[OF d(1), of h c0 x inc_ref_count] Some
        by (simp add: c find_code_def)
      then show "unat (c_ref_count x) = holders s' (c_code_hash x)"
      proof
        assume x: "x = inc_ref_count c0"
        have "unat (c_ref_count c0) = holders s h" using d(2)[OF c0(2)] c0(1) by simp
        moreover have "holders s' h = holders s h + 1" using hold[of h] by simp
        moreover have "unat (c_ref_count c0 + 1) = Suc (unat (c_ref_count c0))"
          using nmax by (rule unat_inc_u32)
        ultimately show ?thesis using x c0(1) by simp
      next
        assume "x \<in> set (codes s) \<and> c_code_hash x \<noteq> h"
        then show ?thesis using old by blast
      qed
    qed
  qed
qed

lemma fresh_holder_indicator:
  assumes "fresh_holder s address h" and "find_account s address = Some r"
    and "h' = h \<or> find_code s h' \<noteq> None"
  shows "a_code_hash r \<noteq> Some h'"
  using assms by (auto simp: fresh_holder_def split: option.splits)

lemma fresh_holder_count:
  "fresh_holder s address h \<Longrightarrow>
   (case find_code s h of None \<Rightarrow> holders s h = 0 | Some c \<Rightarrow> c_ref_count c \<noteq> - 1)"
  by (simp add: fresh_holder_def)

lemma update_account_code_exact:
  assumes inv: "ref_counts_exact s" and fr: "fresh_holder s address h"
  shows "ref_counts_exact (update_account_code s address incarnation h code)"
proof (rule adopt_exact[OF inv _ _ fresh_holder_count[OF fr]])
  let ?s' = "update_account_code s address incarnation h code"
  show "codes ?s' =
        (case find_code s h of
           None \<Rightarrow> codes s @ [\<lparr>c_id = codes_next s, c_ref_count = 1, c_code = code, c_code_hash = h\<rparr>]
         | Some c \<Rightarrow> tbl_modify (by_codehash h) inc_ref_count (codes s))"
    by (rule update_account_code_codes)
  fix h' assume r: "h' = h \<or> find_code s h' \<noteq> None"
  show "holders ?s' h' = holders s h' + (if h' = h then 1 else 0)"
  proof (cases "find_account s address")
    case None
    then have "accounts ?s' = accounts s @ [\<lparr>a_id = accounts_next s, a_eth_address = address,
        a_nonce = 0, a_balance = 0, a_code_hash = Some h\<rparr>]"
      by (simp add: update_account_code_accounts)
    then show ?thesis using holders_append[of ?s' s _ h'] by auto
  next
    case (Some r0)
    then have "accounts ?s' = tbl_modify (by_address address)
        (\<lambda>row. row\<lparr>a_code_hash := Some h\<rparr>) (accounts s)"
      by (simp add: update_account_code_accounts)
    then have "holders ?s' h' + (if a_code_hash r0 = Some h' then 1 else 0) =
        holders s h' + (if a_code_hash (r0\<lparr>a_code_hash := Some h\<rparr>) = Some h' then 1 else 0)"
      using Some by (rule holders_modify[rotated])
    moreover have "a_code_hash r0 \<noteq> Some h'"
      using fr Some r by (rule fresh_holder_indicator)
    ultimately show ?thesis by auto
  qed
qed

lemma update_account_then_code_exact:
  assumes inv: "ref_counts_exact s" and fr: "fresh_holder s address h"
    and st: "stored_code_hash cur = Some h" and ne: "initial \<noteq> Some cur"
  shows "ref_counts_exact
           (update_account_code (update_account s address initial (Some cur)) address incarnation h code)"
proof (rule adopt_exact[OF inv _ _ fresh_holder_count[OF fr]])
  let ?s1 = "update_account s address initial (Some cur)"
  let ?s2 = "update_account_code ?s1 address incarnation h code"
  have fc: "find_code ?s1 h = find_code s h"
    by (simp add: find_code_def update_account_present_frame)
  show "codes ?s2 =
        (case find_code s h of
           None \<Rightarrow> codes s @ [\<lparr>c_id = codes_next ?s1, c_ref_count = 1, c_code = code, c_code_hash = h\<rparr>]
         | Some c \<Rightarrow> tbl_modify (by_codehash h) inc_ref_count (codes s))"
    by (simp add: update_account_code_codes fc update_account_present_frame split: option.splits)
  fix h' assume r: "h' = h \<or> find_code s h' \<noteq> None"
  have "\<exists>r1. find_account ?s1 address = Some r1 \<and> a_code_hash r1 = Some h"
    using st by (cases "find_account s address")
      (simp_all add: update_account_present_find_account[OF ne])
  then obtain r1 where f1: "find_account ?s1 address = Some r1" and h1: "a_code_hash r1 = Some h"
    by blast
  have "accounts ?s2 = tbl_modify (by_address address)
        (\<lambda>row. row\<lparr>a_code_hash := Some h\<rparr>) (accounts ?s1)"
    using f1 by (simp add: update_account_code_accounts)
  then have "holders ?s2 h' + (if a_code_hash r1 = Some h' then 1 else 0) =
        holders ?s1 h' + (if a_code_hash (r1\<lparr>a_code_hash := Some h\<rparr>) = Some h' then 1 else 0)"
    using f1 by (rule holders_modify[rotated])
  then have same: "holders ?s2 h' = holders ?s1 h'" using h1 by (auto split: if_splits)
  have "holders ?s1 h' = holders s h' + (if h' = h then 1 else 0)"
  proof (cases "find_account s address")
    case None
    then have "accounts ?s1 = accounts s @ [\<lparr>a_id = accounts_next s, a_eth_address = address,
        a_nonce = acc_nonce cur, a_balance = acc_balance cur, a_code_hash = stored_code_hash cur\<rparr>]"
      by (simp add: update_account_present_accounts[OF ne])
    then show ?thesis using holders_append[of ?s1 s _ h'] st by auto
  next
    case (Some r0)
    then have "accounts ?s1 = tbl_modify (by_address address)
        (\<lambda>row. row\<lparr>a_nonce := acc_nonce cur, a_code_hash := stored_code_hash cur,
                    a_balance := acc_balance cur\<rparr>) (accounts s)"
      by (simp add: update_account_present_accounts[OF ne])
    then have "holders ?s1 h' + (if a_code_hash r0 = Some h' then 1 else 0) =
        holders s h' + (if a_code_hash (r0\<lparr>a_nonce := acc_nonce cur,
            a_code_hash := stored_code_hash cur, a_balance := acc_balance cur\<rparr>) = Some h' then 1 else 0)"
      using Some by (rule holders_modify[rotated])
    moreover have "a_code_hash r0 \<noteq> Some h'"
      using fr Some r by (rule fresh_holder_indicator)
    ultimately show ?thesis using st by auto
  qed
  then show "holders ?s2 h' = holders s h' + (if h' = h then 1 else 0)" using same by simp
qed

lemma update_account_keep_exact:
  assumes inv: "ref_counts_exact s" and k: "keeps_code_hash s address cur"
  shows "ref_counts_exact (update_account s address initial (Some cur))"
proof (cases "initial = Some cur")
  case True
  then show ?thesis using inv by (simp add: update_account_def)
next
  case False
  let ?s' = "update_account s address initial (Some cur)"
  have c: "codes ?s' = codes s" by (rule update_account_present_frame)
  have "\<And>h. holders ?s' h = holders s h"
  proof -
    fix h
    show "holders ?s' h = holders s h"
    proof (cases "find_account s address")
      case None
      then have "accounts ?s' = accounts s @ [\<lparr>a_id = accounts_next s, a_eth_address = address,
          a_nonce = acc_nonce cur, a_balance = acc_balance cur, a_code_hash = stored_code_hash cur\<rparr>]"
        by (simp add: update_account_present_accounts[OF False])
      moreover have "stored_code_hash cur = None" using k None by (simp add: keeps_code_hash_def)
      ultimately show ?thesis using holders_append[of ?s' s _ h] by auto
    next
      case (Some r0)
      then have "accounts ?s' = tbl_modify (by_address address)
          (\<lambda>row. row\<lparr>a_nonce := acc_nonce cur, a_code_hash := stored_code_hash cur,
                      a_balance := acc_balance cur\<rparr>) (accounts s)"
        by (simp add: update_account_present_accounts[OF False])
      then have "holders ?s' h + (if a_code_hash r0 = Some h then 1 else 0) =
          holders s h + (if a_code_hash (r0\<lparr>a_nonce := acc_nonce cur,
              a_code_hash := stored_code_hash cur, a_balance := acc_balance cur\<rparr>) = Some h then 1 else 0)"
        using Some by (rule holders_modify[rotated])
      moreover have "a_code_hash r0 = stored_code_hash cur"
        using k Some by (simp add: keeps_code_hash_def)
      ultimately show ?thesis by auto
    qed
  qed
  then show ?thesis using ref_counts_exactD[OF inv] c by (intro ref_counts_exactI) simp_all
qed

lemma update_storage_exact:
  assumes inv: "ref_counts_exact s" and e: "find_code s kEmptyHash = None"
  shows "ref_counts_exact (update_storage s address incarnation location initial current)"
proof -
  let ?s' = "update_storage s address incarnation location initial current"
  note d = ref_counts_exactD[OF inv]
  have c: "codes ?s' = codes s" by (rule update_storage_frame)
  show ?thesis
  proof (intro ref_counts_exactI)
    show "distinct (map c_code_hash (codes ?s'))" using d(1) c by simp
    fix x assume "x \<in> set (codes ?s')"
    then have x: "x \<in> set (codes s)" using c by simp
    then have n: "kEmptyHash \<noteq> c_code_hash x"
      using e find_code_None_hash[of kEmptyHash "codes s" x] by (auto simp: find_code_def)
    have "holders ?s' (c_code_hash x) = holders s (c_code_hash x)"
      using n by (simp add: holders_def holds_def update_storage_accounts)
    then show "unat (c_ref_count x) = holders ?s' (c_code_hash x)" using d(2)[OF x] by simp
  qed
qed

lemma gc_exact:
  assumes inv: "ref_counts_exact s"
  shows "ref_counts_exact (fst (gc s n))"
proof -
  let ?s' = "fst (gc s n)"
  note d = ref_counts_exactD[OF inv]
  have f: "?s' = snd (gc_run s n)" by (simp add: gc_def Let_def)
  have a: "accounts ?s' = accounts s"
    unfolding f by (subst gc_run_frame) simp
  have sub: "subseq (codes ?s') (codes s)" unfolding f by (rule gc_run_subseq)
  show ?thesis
  proof (intro ref_counts_exactI)
    show "distinct (map c_code_hash (codes ?s'))"
      using sub d(1) by (rule subseq_distinct_map)
    fix x assume "x \<in> set (codes ?s')"
    then have x: "x \<in> set (codes s)" using subseq_set_mono[OF sub] by blast
    have "holders ?s' (c_code_hash x) = holders s (c_code_hash x)"
      using a by (simp add: holders_def)
    then show "unat (c_ref_count x) = holders ?s' (c_code_hash x)" using d(2)[OF x] by simp
  qed
qed

text \<open>
  C1, as the code has it. A code object's reference count changes in two places only:
  \<^verbatim>\<open>update_account_code\<close> creates the object with count 1 or increments its count on every
  call, whatever the account held before, and the deletion branch of \<^verbatim>\<open>update_account\<close>
  decrements it when positive. \<^verbatim>\<open>update_account\<close> with a present snapshot never touches the
  code table, also when it overwrites the record's code hash. So the equality of each count
  with the number of records holding the hash (one object per hash) holds in the empty
  state and is kept by every deletion, by \<^verbatim>\<open>gc\<close>, by \<^verbatim>\<open>update_account\<close> calls that store the
  code hash the record already has, by \<^verbatim>\<open>update_account_code\<close> for a fresh holder (alone or
  right after the \<^verbatim>\<open>update_account\<close> that stores the same hash), and by \<^verbatim>\<open>update_storage\<close>
  while the empty-code hash has no code object.
\<close>

theorem ref_count_tracks_adoptions_and_deletions:
  "codes (update_account s address initial (Some cur)) = codes s
   \<and> (\<forall>c. find_code s h = Some c \<longrightarrow>
         find_code (update_account_code s address incarnation h code) h = Some (inc_ref_count c))
   \<and> (find_code s h = None \<longrightarrow>
         find_code (update_account_code s address incarnation h code) h =
           Some \<lparr>c_id = codes_next s, c_ref_count = 1, c_code = code, c_code_hash = h\<rparr>)
   \<and> (\<forall>r c. find_account s address = Some r \<and> a_code_hash r = Some h
             \<and> find_code s h = Some c \<and> initial \<noteq> None \<longrightarrow>
         find_code (update_account s address initial None) h = Some (dec_ref_count c))
   \<and> ref_counts_exact empty_state
   \<and> (ref_counts_exact s \<longrightarrow>
         ref_counts_match s
       \<and> ref_counts_exact (update_account s address initial None)
       \<and> (keeps_code_hash s address cur \<longrightarrow>
            ref_counts_exact (update_account s address initial (Some cur)))
       \<and> (fresh_holder s address h \<longrightarrow>
            ref_counts_exact (update_account_code s address incarnation h code))
       \<and> (fresh_holder s address h \<and> stored_code_hash cur = Some h \<and> initial \<noteq> Some cur \<longrightarrow>
            ref_counts_exact
              (update_account_code (update_account s address initial (Some cur))
                 address incarnation h code))
       \<and> (find_code s kEmptyHash = None \<longrightarrow>
            ref_counts_exact (update_storage s address incarnation location initial_value current_value))
       \<and> ref_counts_exact (fst (gc s n)))"
proof -
  have 1: "codes (update_account s address initial (Some cur)) = codes s"
    by (rule update_account_present_frame)
  have 2: "\<forall>c. find_code s h = Some c \<longrightarrow>
         find_code (update_account_code s address incarnation h code) h = Some (inc_ref_count c)"
    by (simp add: update_account_code_find_code)
  have 3: "find_code s h = None \<longrightarrow>
         find_code (update_account_code s address incarnation h code) h =
           Some \<lparr>c_id = codes_next s, c_ref_count = 1, c_code = code, c_code_hash = h\<rparr>"
    by (simp add: update_account_code_find_code)
  have 4: "\<forall>r c. find_account s address = Some r \<and> a_code_hash r = Some h
             \<and> find_code s h = Some c \<and> initial \<noteq> None \<longrightarrow>
         find_code (update_account s address initial None) h = Some (dec_ref_count c)"
    by (simp add: update_account_find_code)
  have 5: "ref_counts_exact empty_state"
    by (simp add: ref_counts_exact_def empty_state_def)
  have 6: "ref_counts_exact s \<longrightarrow>
         ref_counts_match s
       \<and> ref_counts_exact (update_account s address initial None)
       \<and> (keeps_code_hash s address cur \<longrightarrow>
            ref_counts_exact (update_account s address initial (Some cur)))
       \<and> (fresh_holder s address h \<longrightarrow>
            ref_counts_exact (update_account_code s address incarnation h code))
       \<and> (fresh_holder s address h \<and> stored_code_hash cur = Some h \<and> initial \<noteq> Some cur \<longrightarrow>
            ref_counts_exact
              (update_account_code (update_account s address initial (Some cur))
                 address incarnation h code))
       \<and> (find_code s kEmptyHash = None \<longrightarrow>
            ref_counts_exact (update_storage s address incarnation location initial_value current_value))
       \<and> ref_counts_exact (fst (gc s n))"
  proof
    assume inv: "ref_counts_exact s"
    have a: "ref_counts_match s" using inv by (rule ref_counts_exact_match)
    have b: "ref_counts_exact (update_account s address initial None)"
      using inv by (rule update_account_delete_exact)
    have c: "keeps_code_hash s address cur \<longrightarrow>
            ref_counts_exact (update_account s address initial (Some cur))"
      using inv by (simp add: update_account_keep_exact)
    have d: "fresh_holder s address h \<longrightarrow>
            ref_counts_exact (update_account_code s address incarnation h code)"
      using inv by (simp add: update_account_code_exact)
    have e: "fresh_holder s address h \<and> stored_code_hash cur = Some h \<and> initial \<noteq> Some cur \<longrightarrow>
            ref_counts_exact
              (update_account_code (update_account s address initial (Some cur))
                 address incarnation h code)"
      using inv by (simp add: update_account_then_code_exact)
    have f: "find_code s kEmptyHash = None \<longrightarrow>
            ref_counts_exact (update_storage s address incarnation location initial_value current_value)"
      using inv by (simp add: update_storage_exact)
    have g: "ref_counts_exact (fst (gc s n))"
      using inv by (rule gc_exact)
    show "ref_counts_match s
       \<and> ref_counts_exact (update_account s address initial None)
       \<and> (keeps_code_hash s address cur \<longrightarrow>
            ref_counts_exact (update_account s address initial (Some cur)))
       \<and> (fresh_holder s address h \<longrightarrow>
            ref_counts_exact (update_account_code s address incarnation h code))
       \<and> (fresh_holder s address h \<and> stored_code_hash cur = Some h \<and> initial \<noteq> Some cur \<longrightarrow>
            ref_counts_exact
              (update_account_code (update_account s address initial (Some cur))
                 address incarnation h code))
       \<and> (find_code s kEmptyHash = None \<longrightarrow>
            ref_counts_exact (update_storage s address incarnation location initial_value current_value))
       \<and> ref_counts_exact (fst (gc s n))"
      using a b c d e f g by (intro conjI)
  qed
  show ?thesis using 1 2 3 4 5 6 by (intro conjI)
qed

lemmas ref_eval =
  ref_counts_exact_def ref_counts_match_def holders_def holds_def pending_collection_def
  keeps_code_hash_def fresh_holder_def stored_code_hash_def kEmptyHash_def
  demo_account_A2_def demo_account_C_def demo_plain_account_def

theorem ref_count_tracks_adoptions_and_deletions_witness:
  "ref_counts_exact demo_state
   \<and> find_account demo_state 0xA = Some demo_row_A
   \<and> a_code_hash demo_row_A = Some 0x11
   \<and> find_code demo_state 0x11 =
       Some \<lparr>c_id = 0, c_ref_count = 1, c_code = demo_code, c_code_hash = 0x11\<rparr>
   \<and> Some demo_account_A \<noteq> None
   \<and> keeps_code_hash demo_state 0xA demo_account_A2
   \<and> find_code demo_state kEmptyHash = None
   \<and> ref_counts_match demo_state
   \<and> ref_counts_exact (update_account demo_state 0xA (Some demo_account_A) None)
   \<and> find_code (update_account demo_state 0xA (Some demo_account_A) None) 0x11 =
       Some \<lparr>c_id = 0, c_ref_count = 0, c_code = demo_code, c_code_hash = 0x11\<rparr>
   \<and> ref_counts_exact (update_account demo_state 0xA (Some demo_account_A) (Some demo_account_A2))
   \<and> ref_counts_exact (update_storage demo_state 0xA 0 1 5 0)
   \<and> ref_counts_exact (fst (gc demo_state 3))
   \<and> fresh_holder demo_state 0xC 0x11
   \<and> ref_counts_exact (update_account_code demo_state 0xC 0 0x11 [])
   \<and> find_code (update_account_code demo_state 0xC 0 0x11 []) 0x11 =
       Some \<lparr>c_id = 0, c_ref_count = 2, c_code = demo_code, c_code_hash = 0x11\<rparr>
   \<and> fresh_holder demo_state 0xC 0x22
   \<and> stored_code_hash demo_account_C = Some 0x22
   \<and> None \<noteq> Some demo_account_C
   \<and> ref_counts_exact
        (update_account_code (update_account demo_state 0xC None (Some demo_account_C))
           0xC 0 0x22 demo_code)"
proof -
  have h: "ref_counts_exact demo_state"
    by (simp add: ref_eval demo_eval)
  have a: "find_account demo_state 0xA = Some demo_row_A \<and> a_code_hash demo_row_A = Some 0x11
      \<and> find_code demo_state 0x11 =
          Some \<lparr>c_id = 0, c_ref_count = 1, c_code = demo_code, c_code_hash = 0x11\<rparr>
      \<and> Some demo_account_A \<noteq> None
      \<and> keeps_code_hash demo_state 0xA demo_account_A2
      \<and> find_code demo_state kEmptyHash = None"
    by (simp add: ref_eval demo_eval)
  have a': "ref_counts_match demo_state
      \<and> ref_counts_exact (update_account demo_state 0xA (Some demo_account_A) None)
      \<and> find_code (update_account demo_state 0xA (Some demo_account_A) None) 0x11 =
          Some \<lparr>c_id = 0, c_ref_count = 0, c_code = demo_code, c_code_hash = 0x11\<rparr>
      \<and> ref_counts_exact (update_account demo_state 0xA (Some demo_account_A) (Some demo_account_A2))
      \<and> ref_counts_exact (update_storage demo_state 0xA 0 1 5 0)
      \<and> ref_counts_exact (fst (gc demo_state 3))"
    using h a
      ref_count_tracks_adoptions_and_deletions [where s = demo_state and address = "0xA"
        and initial = "Some demo_account_A" and cur = demo_account_A2 and h = "0x11"
        and incarnation = 0 and location = 1 and initial_value = 5 and current_value = 0
        and n = 3]
    by (simp add: dec_ref_count_def)
  have c: "fresh_holder demo_state 0xC 0x11"
    by (simp add: ref_eval demo_eval)
  have c': "ref_counts_exact (update_account_code demo_state 0xC 0 0x11 [])
      \<and> find_code (update_account_code demo_state 0xC 0 0x11 []) 0x11 =
          Some \<lparr>c_id = 0, c_ref_count = 2, c_code = demo_code, c_code_hash = 0x11\<rparr>"
    using h a c
      ref_count_tracks_adoptions_and_deletions [where s = demo_state and address = "0xC"
        and h = "0x11" and incarnation = 0 and code = "[]"]
    by (simp add: inc_ref_count_def)
  have d: "fresh_holder demo_state 0xC 0x22 \<and> stored_code_hash demo_account_C = Some 0x22
      \<and> None \<noteq> Some demo_account_C"
    by (simp add: ref_eval demo_eval)
  have d': "ref_counts_exact
        (update_account_code (update_account demo_state 0xC None (Some demo_account_C))
           0xC 0 0x22 demo_code)"
    using h d
      ref_count_tracks_adoptions_and_deletions [where s = demo_state and address = "0xC"
        and h = "0x22" and incarnation = 0 and code = demo_code and initial = None
        and cur = demo_account_C]
    by simp
  show ?thesis
    using h a a' c c' d d' by blast
qed

text \<open>
  C1 as stated fails. In \<open>demo_state\<close> the count of \<open>0x11\<close> is 1 and \<open>0xA\<close> is its one holder.
  \<^verbatim>\<open>update_account\<close> with a snapshot of \<open>0xA\<close> that has no code overwrites the record's code
  hash with absent: the code hash has changed and no record holds \<open>0x11\<close> any more, yet the
  count is still 1, and the object is not waiting for collection.
\<close>

theorem ref_count_not_decremented_on_change_counterexample:
  "ref_counts_match demo_state
   \<and> holders demo_state 0x11 = 1
   \<and> find_code demo_state 0x11 =
       Some \<lparr>c_id = 0, c_ref_count = 1, c_code = demo_code, c_code_hash = 0x11\<rparr>
   \<and> find_account (update_account demo_state 0xA (Some demo_account_A) (Some demo_plain_account)) 0xA =
       Some \<lparr>a_id = 0, a_eth_address = 0xA, a_nonce = 1, a_balance = 1, a_code_hash = None\<rparr>
   \<and> holders (update_account demo_state 0xA (Some demo_account_A) (Some demo_plain_account)) 0x11 = 0
   \<and> find_code (update_account demo_state 0xA (Some demo_account_A) (Some demo_plain_account)) 0x11 =
       Some \<lparr>c_id = 0, c_ref_count = 1, c_code = demo_code, c_code_hash = 0x11\<rparr>
   \<and> gc_code (update_account demo_state 0xA (Some demo_account_A) (Some demo_plain_account)) = []
   \<and> \<not> ref_counts_match (update_account demo_state 0xA (Some demo_account_A) (Some demo_plain_account))"
  by (simp add: update_account_def tbl_modify.simps Let_def ref_eval demo_eval)

section \<open>Chain-boundary operations\<close>

text \<open>
  C8. Every call to \<^verbatim>\<open>read_header\<close>, \<^verbatim>\<open>read_body\<close>, \<^verbatim>\<open>total_difficulty\<close>,
  \<^verbatim>\<open>current_canonical_block\<close>, \<^verbatim>\<open>canonical_hash\<close>, \<^verbatim>\<open>insert_block\<close>, \<^verbatim>\<open>canonize_block\<close>,
  \<^verbatim>\<open>decanonize_block\<close>, \<^verbatim>\<open>insert_receipts\<close>, \<^verbatim>\<open>unwind_state_changes\<close> or
  \<^verbatim>\<open>state_root_hash\<close> aborts with its "not implemented" check failure and never returns a
  value; \<^verbatim>\<open>previous_incarnation\<close> always returns 0 and \<^verbatim>\<open>begin_block\<close> changes nothing.
\<close>

theorem chain_boundary_fails_fast:
  "read_header s n h = Inl (check_failure ''read_header not implemented'')
   \<and> read_body s n h out = Inl (check_failure ''read_body not implemented'')
   \<and> total_difficulty s n h = Inl (check_failure ''total_difficulty not implemented'')
   \<and> current_canonical_block s = Inl (check_failure ''current_canonical_block not implemented'')
   \<and> canonical_hash s n = Inl (check_failure ''canonical_hash not implemented'')
   \<and> insert_block s b h = Inl (check_failure ''insert_block not implemented'')
   \<and> canonize_block s n h = Inl (check_failure ''canonize_block not implemented'')
   \<and> decanonize_block s n = Inl (check_failure ''decanonize_block not implemented'')
   \<and> insert_receipts s n rs = Inl (check_failure ''insert_receipts not implemented'')
   \<and> unwind_state_changes s n = Inl (check_failure ''unwind_state_changes not implemented'')
   \<and> state_root_hash s = Inl (check_failure ''state_root_hash not implemented'')
   \<and> previous_incarnation s a = 0
   \<and> begin_block s n = s"
  by (simp add: read_header_def read_body_def total_difficulty_def current_canonical_block_def
      canonical_hash_def insert_block_def canonize_block_def decanonize_block_def
      insert_receipts_def unwind_state_changes_def state_root_hash_def
      previous_incarnation_def begin_block_def check_def after_check_def)

end
